theory Spec2Isabelle
  imports Main
begin

section \<open>Data model\<close>

text \<open>
  The charge object of \<^verbatim>\<open>routes/charges.js\<close> (lines 50-58), the payload of a job
  (\<^verbatim>\<open>{ ...charge, source }\<close>, line 60) and a row of the table \<^verbatim>\<open>charges\<close> of the schema.
  A JavaScript value that may be \<^verbatim>\<open>undefined\<close> (SQL \<^verbatim>\<open>NULL\<close>) is an \<open>option\<close>.
  The column \<^verbatim>\<open>created_at\<close> (\<^verbatim>\<open>DEFAULT CURRENT_TIMESTAMP\<close>) is left out: none of the
  statements modelled here writes or compares it.
\<close>

datatype json =
    JNull
  | JBool bool
  | JNumber int
  | JString string
  | JArray "json list"
  | JObject "(string \<times> json) list"

record charge =
  id' :: string
  merchant_id :: string
  amount :: int
  currency :: string
  status :: string
  description :: "string option"

record job_data = charge +
  source :: "string option"

record job =
  type' :: string
  data :: job_data

record row = charge +
  metadata :: "json option"

section \<open>The queue (utils/queue.js)\<close>

text \<open>The module-level array \<^verbatim>\<open>queue\<close> is passed explicitly. \<^verbatim>\<open>queue.push(job)\<close> appends,
  \<^verbatim>\<open>queue.shift()\<close> removes the first element and returns it, or returns \<^verbatim>\<open>undefined\<close>
  (here \<open>None\<close>) on an empty array. The \<^verbatim>\<open>console.log\<close> of \<^verbatim>\<open>enqueue\<close> is not modelled.\<close>

definition enqueue :: "job \<Rightarrow> job list \<Rightarrow> job list" where
  "enqueue j q = q @ [j]"

definition dequeue :: "job list \<Rightarrow> job option \<times> job list" where
  "dequeue q = (case q of [] \<Rightarrow> (None, []) | j # q' \<Rightarrow> (Some j, q'))"

text \<open>A client of the queue: any interleaving of calls to \<^verbatim>\<open>enqueue\<close> and \<^verbatim>\<open>dequeue\<close>.
  \<open>run_ops\<close> returns the jobs handed out by the calls of \<^verbatim>\<open>dequeue\<close>, in the order of the
  calls, and the queue left.\<close>

datatype queue_op = Enqueue job | Dequeue

fun run_ops :: "queue_op list \<Rightarrow> job list \<Rightarrow> job list \<times> job list" where
  "run_ops [] q = ([], q)"
| "run_ops (Enqueue j # ops) q = run_ops ops (enqueue j q)"
| "run_ops (Dequeue # ops) q =
     (case dequeue q of
        (None, q') \<Rightarrow> run_ops ops q'
      | (Some j, q') \<Rightarrow> (case run_ops ops q' of (out, q'') \<Rightarrow> (j # out, q'')))"

fun enqueued :: "queue_op list \<Rightarrow> job list" where
  "enqueued [] = []"
| "enqueued (Enqueue j # ops) = j # enqueued ops"
| "enqueued (Dequeue # ops) = enqueued ops"

section \<open>The charge store\<close>

text \<open>
  Modelled from the spec: \<^verbatim>\<open>utils/db.js\<close>, the module behind \<^verbatim>\<open>db.query\<close>, is not among
  the sources. The spec calls it the Charge Store, ``keyed by charge id'', whose writes may
  fail (``store unavailable'', ``insert/update cannot complete''). The statements below are
  the SQL texts of \<^verbatim>\<open>worker.js\<close> and \<^verbatim>\<open>charges.js\<close>, read against the table \<^verbatim>\<open>charges\<close> of the
  schema: \<^verbatim>\<open>id VARCHAR(255) PRIMARY KEY\<close>, \<^verbatim>\<open>merchant_id VARCHAR(255) REFERENCES merchants\<close>,
  \<^verbatim>\<open>amount INTEGER NOT NULL\<close>, \<^verbatim>\<open>currency VARCHAR(3) NOT NULL\<close>.

  The store holds the registered merchant ids, the rows of \<^verbatim>\<open>charges\<close> in insertion order,
  and a schedule of outages: every call of \<^verbatim>\<open>db.query\<close> takes the head of \<open>outages\<close>, and
  fails with \<open>ConnectionError\<close> when it is \<open>True\<close>; an empty schedule means the store is
  reachable from then on.
\<close>

datatype db_error =
    ConnectionError
  | StringDataRightTruncation
  | NumericValueOutOfRange
  | UniqueViolation
  | ForeignKeyViolation
  | InvalidRowCount

record db =
  merchants :: "string list"
  charges :: "row list"
  outages :: "bool list"

definition connect :: "db \<Rightarrow> bool \<times> db" where
  "connect d = (case outages d of [] \<Rightarrow> (True, d) | b # bs \<Rightarrow> (\<not> b, d\<lparr>outages := bs\<rparr>))"

text \<open>A value stored into a \<^verbatim>\<open>VARCHAR(n)\<close> column: over-length input is an error unless the
  excess characters are all spaces, which are then cut off.\<close>

definition varchar :: "nat \<Rightarrow> string \<Rightarrow> string option" where
  "varchar n s =
     (if length s \<le> n then Some s
      else if list_all (\<lambda>c. c = CHR '' '') (drop n s) then Some (take n s)
      else None)"

definition int4 :: "int \<Rightarrow> bool" where
  "int4 n \<longleftrightarrow> - 2147483648 \<le> n \<and> n \<le> 2147483647"

text \<open>What the table does with a new row: the row as stored, or the error raised.\<close>

definition check_row :: "db \<Rightarrow> row \<Rightarrow> db_error + row" where
  "check_row d r =
     (case varchar 255 (id' r) of
        None \<Rightarrow> Inl StringDataRightTruncation
      | Some i \<Rightarrow>
     (case varchar 3 (currency r) of
        None \<Rightarrow> Inl StringDataRightTruncation
      | Some c \<Rightarrow>
          if \<not> int4 (amount r) then Inl NumericValueOutOfRange
          else if i \<in> set (map id' (charges d)) then Inl UniqueViolation
          else if merchant_id r \<notin> set (merchants d) then Inl ForeignKeyViolation
          else Inr (r\<lparr>id' := i, currency := c\<rparr>)))"

text \<open>\<^verbatim>\<open>INSERT INTO charges(id, merchant_id, amount, currency, status, description)
  VALUES($1, $2, $3, $4, $5, $6)\<close> (worker.js lines 14 and 22).\<close>

definition insert_charge :: "row \<Rightarrow> db \<Rightarrow> (db_error + unit) \<times> db" where
  "insert_charge r d =
     (case connect d of
        (False, d') \<Rightarrow> (Inl ConnectionError, d')
      | (True, d') \<Rightarrow>
          (case check_row d' r of
             Inl e \<Rightarrow> (Inl e, d')
           | Inr r' \<Rightarrow> (Inr (), d'\<lparr>charges := charges d' @ [r']\<rparr>)))"

text \<open>\<^verbatim>\<open>UPDATE charges SET status = $1 WHERE id = $2\<close> (worker.js line 20).\<close>

definition update_status_by_id :: "string \<Rightarrow> string \<Rightarrow> db \<Rightarrow> (db_error + unit) \<times> db" where
  "update_status_by_id st i d =
     (case connect d of
        (False, d') \<Rightarrow> (Inl ConnectionError, d')
      | (True, d') \<Rightarrow>
          (Inr (), d'\<lparr>charges := map (\<lambda>r. if id' r = i then r\<lparr>status := st\<rparr> else r) (charges d')\<rparr>))"

text \<open>\<^verbatim>\<open>SELECT * FROM charges WHERE id = $1 AND merchant_id = $2\<close> (charges.js line 93).\<close>

definition select_charge :: "string \<Rightarrow> string \<Rightarrow> db \<Rightarrow> (db_error + row list) \<times> db" where
  "select_charge i m d =
     (case connect d of
        (False, d') \<Rightarrow> (Inl ConnectionError, d')
      | (True, d') \<Rightarrow> (Inr (filter (\<lambda>r. id' r = i \<and> merchant_id r = m) (charges d')), d'))"

text \<open>\<^verbatim>\<open>UPDATE charges SET metadata = $1 WHERE id = $2 AND merchant_id = $3 RETURNING *\<close>
  (charges.js line 196). The value is stored as it is handed over; how the driver
  serialises it is not modelled.\<close>

definition update_metadata :: "json \<Rightarrow> string \<Rightarrow> string \<Rightarrow> db \<Rightarrow> (db_error + row list) \<times> db" where
  "update_metadata md i m d =
     (case connect d of
        (False, d') \<Rightarrow> (Inl ConnectionError, d')
      | (True, d') \<Rightarrow>
          (let rs = map (\<lambda>r. if id' r = i \<and> merchant_id r = m then r\<lparr>metadata := Some md\<rparr> else r)
                      (charges d')
           in (Inr (filter (\<lambda>r. id' r = i \<and> merchant_id r = m) rs), d'\<lparr>charges := rs\<rparr>)))"

text \<open>\<^verbatim>\<open>SELECT status FROM charges WHERE id = $1 AND merchant_id = $2\<close> (charges.js line 243).\<close>

definition select_status :: "string \<Rightarrow> string \<Rightarrow> db \<Rightarrow> (db_error + string list) \<times> db" where
  "select_status i m d =
     (case connect d of
        (False, d') \<Rightarrow> (Inl ConnectionError, d')
      | (True, d') \<Rightarrow>
          (Inr (map status (filter (\<lambda>r. id' r = i \<and> merchant_id r = m) (charges d'))), d'))"

text \<open>\<^verbatim>\<open>UPDATE charges SET status = $1 WHERE id = $2 AND merchant_id = $3 RETURNING *\<close>
  (charges.js line 256).\<close>

definition update_status :: "string \<Rightarrow> string \<Rightarrow> string \<Rightarrow> db \<Rightarrow> (db_error + row list) \<times> db" where
  "update_status st i m d =
     (case connect d of
        (False, d') \<Rightarrow> (Inl ConnectionError, d')
      | (True, d') \<Rightarrow>
          (let rs = map (\<lambda>r. if id' r = i \<and> merchant_id r = m then r\<lparr>status := st\<rparr> else r)
                      (charges d')
           in (Inr (filter (\<lambda>r. id' r = i \<and> merchant_id r = m) rs), d'\<lparr>charges := rs\<rparr>)))"

text \<open>\<^verbatim>\<open>LIMIT $2 OFFSET $3\<close> over \<^verbatim>\<open>ORDER BY created_at DESC\<close>. The table is held in insertion
  order, so the newest row comes last and the ordered result is the reverse (the order of
  rows inserted at the same instant is not fixed by SQL; the reverse of the insertion order
  is taken). A negative row count is an error.\<close>

definition page :: "int \<Rightarrow> int \<Rightarrow> row list \<Rightarrow> db_error + row list" where
  "page limit offset rs =
     (if limit < 0 \<or> offset < 0 then Inl InvalidRowCount
      else Inr (take (nat limit) (drop (nat offset) (rev rs))))"

text \<open>\<^verbatim>\<open>SELECT * FROM charges WHERE merchant_id = $1 ORDER BY created_at DESC LIMIT $2 OFFSET $3\<close>
  (charges.js line 138).\<close>

definition select_charges :: "string \<Rightarrow> int \<Rightarrow> int \<Rightarrow> db \<Rightarrow> (db_error + row list) \<times> db" where
  "select_charges m limit offset d =
     (case connect d of
        (False, d') \<Rightarrow> (Inl ConnectionError, d')
      | (True, d') \<Rightarrow> (page limit offset (filter (\<lambda>r. merchant_id r = m) (charges d')), d'))"

text \<open>\<^verbatim>\<open>SELECT COUNT(*) FROM charges WHERE merchant_id = $1\<close> (charges.js line 139).\<close>

definition count_charges :: "string \<Rightarrow> db \<Rightarrow> (db_error + nat) \<times> db" where
  "count_charges m d =
     (case connect d of
        (False, d') \<Rightarrow> (Inl ConnectionError, d')
      | (True, d') \<Rightarrow> (Inr (length (filter (\<lambda>r. merchant_id r = m) (charges d'))), d'))"

text \<open>\<^verbatim>\<open>text LIKE pattern\<close>: \<^verbatim>\<open>%\<close> stands for any sequence of characters, \<^verbatim>\<open>_\<close> for any one
  character, and a backslash makes the next character of the pattern literal. (A pattern
  that ends with a lone backslash is an error in SQL; the patterns built by the routes end
  with \<^verbatim>\<open>%\<close>, and \<open>like\<close> is \<open>False\<close> there.) \<^verbatim>\<open>NULL LIKE pattern\<close> is not true.\<close>

fun like :: "string \<Rightarrow> string \<Rightarrow> bool" where
  "like s [] \<longleftrightarrow> s = []"
| "like s (p # ps) \<longleftrightarrow>
     (if p = CHR ''%'' then
        like s ps \<or> (case s of [] \<Rightarrow> False | c # cs \<Rightarrow> like cs (p # ps))
      else if p = CHR ''_'' then
        (case s of [] \<Rightarrow> False | c # cs \<Rightarrow> like cs ps)
      else if p = CHR 0x5C then
        (case ps of
           [] \<Rightarrow> False
         | q # qs \<Rightarrow> (case s of [] \<Rightarrow> False | c # cs \<Rightarrow> c = q \<and> like cs qs))
      else (case s of [] \<Rightarrow> False | c # cs \<Rightarrow> c = p \<and> like cs ps))"

definition description_like :: "string \<Rightarrow> row \<Rightarrow> bool" where
  "description_like pat r = (case description r of None \<Rightarrow> False | Some t \<Rightarrow> like t pat)"

text \<open>\<^verbatim>\<open>SELECT * FROM charges WHERE merchant_id = $1 AND description LIKE $2 ORDER BY
  created_at DESC LIMIT $3 OFFSET $4\<close> (customers.js line 56).\<close>

definition select_charges_like ::
  "string \<Rightarrow> string \<Rightarrow> int \<Rightarrow> int \<Rightarrow> db \<Rightarrow> (db_error + row list) \<times> db" where
  "select_charges_like m pat limit offset d =
     (case connect d of
        (False, d') \<Rightarrow> (Inl ConnectionError, d')
      | (True, d') \<Rightarrow>
          (page limit offset (filter (\<lambda>r. merchant_id r = m \<and> description_like pat r) (charges d')),
           d'))"

text \<open>\<^verbatim>\<open>SELECT COUNT(*) FROM charges WHERE merchant_id = $1 AND description LIKE $2\<close>
  (customers.js line 61).\<close>

definition count_charges_like :: "string \<Rightarrow> string \<Rightarrow> db \<Rightarrow> (db_error + nat) \<times> db" where
  "count_charges_like m pat d =
     (case connect d of
        (False, d') \<Rightarrow> (Inl ConnectionError, d')
      | (True, d') \<Rightarrow>
          (Inr (length (filter (\<lambda>r. merchant_id r = m \<and> description_like pat r) (charges d'))),
           d'))"

text \<open>\<^verbatim>\<open>SELECT id FROM customers WHERE id = $1 AND merchant_id = $2\<close> (customers.js line 50).
  The table \<^verbatim>\<open>customers\<close> is an argument, as its pairs of id and merchant id: no statement
  on charges writes it.\<close>

definition select_customer ::
  "(string \<times> string) list \<Rightarrow> string \<Rightarrow> string \<Rightarrow> db \<Rightarrow> (db_error + string list) \<times> db" where
  "select_customer cs i m d =
     (case connect d of
        (False, d') \<Rightarrow> (Inl ConnectionError, d')
      | (True, d') \<Rightarrow> (Inr (map fst (filter (\<lambda>c. fst c = i \<and> snd c = m) cs)), d'))"

section \<open>The worker (utils/worker.js)\<close>

text \<open>
  \<^verbatim>\<open>processJob\<close> is an \<^verbatim>\<open>async\<close> function: it runs up to its first \<^verbatim>\<open>await\<close> when it is
  called, and each later stretch runs when the awaited promise settles. A call in flight
  is a \<open>task\<close>: the \<^verbatim>\<open>await\<close> it is suspended at, with the destructured \<^verbatim>\<open>job.data\<close>, or
  the settled promise it returned. An exception thrown outside the \<^verbatim>\<open>try\<close> block rejects
  that promise (\<open>Rejected\<close>); nothing is thrown to the caller.
\<close>

datatype task =
    AwaitInsert job_data      \<comment> \<open>line 14: the insert with status pending\<close>
  | AwaitTimeout job_data     \<comment> \<open>line 17: the two seconds of \<^verbatim>\<open>setTimeout\<close>\<close>
  | AwaitUpdate job_data      \<comment> \<open>line 20: the update to succeeded\<close>
  | AwaitFallback job_data    \<comment> \<open>line 22: the insert with status failed, in \<^verbatim>\<open>catch\<close>\<close>
  | Fulfilled
  | Rejected db_error

text \<open>\<^verbatim>\<open>!source\<close> for a value that is a string or absent.\<close>

definition falsy :: "string option \<Rightarrow> bool" where
  "falsy s \<longleftrightarrow> s = None \<or> s = Some []"

text \<open>The parameter list \<^verbatim>\<open>[id, merchant_id, amount, currency, status, description]\<close> of the
  two inserts; \<^verbatim>\<open>metadata\<close> is not among the columns given and stays \<^verbatim>\<open>NULL\<close>.\<close>

definition charge_row :: "job_data \<Rightarrow> string \<Rightarrow> row" where
  "charge_row d st =
     \<lparr>id' = id' d, merchant_id = merchant_id d, amount = amount d, currency = currency d,
      status = st, description = description d, metadata = None\<rparr>"

text \<open>The call \<^verbatim>\<open>processJob(job)\<close>, up to the first \<^verbatim>\<open>await\<close> (lines 5-14 and 21-22).\<close>

definition processJob :: "job \<Rightarrow> task" where
  "processJob j =
     (if type' j = ''process_charge'' then
        (let d = data j in
         if falsy (source d) \<or> source d \<noteq> Some ''valid_token'' then AwaitFallback d
         else AwaitInsert d)
      else Fulfilled)"

text \<open>The stretch of \<^verbatim>\<open>processJob\<close> that runs when the awaited promise settles. The query
  takes effect on the store at this point.\<close>

fun resume :: "task \<Rightarrow> db \<Rightarrow> task \<times> db" where
  "resume (AwaitInsert d) s =
     (case insert_charge (charge_row d ''pending'') s of
        (Inr _, s') \<Rightarrow> (AwaitTimeout d, s')
      | (Inl _, s') \<Rightarrow> (AwaitFallback d, s'))"
| "resume (AwaitTimeout d) s = (AwaitUpdate d, s)"
| "resume (AwaitUpdate d) s =
     (case update_status_by_id ''succeeded'' (id' d) s of
        (Inr _, s') \<Rightarrow> (Fulfilled, s')
      | (Inl _, s') \<Rightarrow> (AwaitFallback d, s'))"
| "resume (AwaitFallback d) s =
     (case insert_charge (charge_row d ''failed'') s of
        (Inr _, s') \<Rightarrow> (Fulfilled, s')
      | (Inl e, s') \<Rightarrow> (Rejected e, s'))"
| "resume Fulfilled s = (Fulfilled, s)"
| "resume (Rejected e) s = (Rejected e, s)"

fun settled :: "task \<Rightarrow> bool" where
  "settled Fulfilled = True"
| "settled (Rejected e) = True"
| "settled t = False"

fun awaits_left :: "task \<Rightarrow> nat" where
  "awaits_left (AwaitInsert d) = 4"
| "awaits_left (AwaitTimeout d) = 3"
| "awaits_left (AwaitUpdate d) = 2"
| "awaits_left (AwaitFallback d) = 1"
| "awaits_left Fulfilled = 0"
| "awaits_left (Rejected e) = 0"

lemma resume_awaits_left: "\<not> settled t \<Longrightarrow> awaits_left (fst (resume t s)) < awaits_left t"
  by (cases t) (auto split: prod.splits sum.splits)

text \<open>One settlement run on its own from a task to the settled promise: the task and the
  store at the start and after every \<^verbatim>\<open>await\<close>.\<close>

function settle :: "task \<Rightarrow> db \<Rightarrow> (task \<times> db) list" where
  "settle t s =
     (if settled t then [(t, s)]
      else (t, s) # (case resume t s of (t', s') \<Rightarrow> settle t' s'))"
  by pat_completeness auto
termination
proof (relation "measure (\<lambda>(t, s). awaits_left t)")
  show "wf (measure (\<lambda>(t, s). awaits_left t))" by simp
next
  fix t :: task and s :: db and x :: "task \<times> db" and t' :: task and s' :: db
  assume "\<not> settled t" and "(t', s') = resume t s"
  then have "t' = fst (resume t s)" by (metis fst_conv)
  with \<open>\<not> settled t\<close> show "((t', s'), (t, s)) \<in> measure (\<lambda>(t, s). awaits_left t)"
    using resume_awaits_left [of t s] by simp
qed

declare settle.simps [simp del]

text \<open>\<^verbatim>\<open>startWorker\<close>: the callback of \<^verbatim>\<open>setInterval\<close> (lines 30-35). The process is the queue,
  the store and the calls of \<^verbatim>\<open>processJob\<close> in flight. The callback does not \<^verbatim>\<open>await\<close> the
  promise of \<^verbatim>\<open>processJob(job)\<close>: the task is left at its first \<^verbatim>\<open>await\<close>. The period of the
  timer (3000 ms) is not modelled: a firing of the timer is an application of \<open>tick\<close>.\<close>

record system =
  queue :: "job list"
  store :: db
  tasks :: "task list"

definition tick :: "system \<Rightarrow> system" where
  "tick sys =
     (case dequeue (queue sys) of
        (None, q) \<Rightarrow> sys\<lparr>queue := q\<rparr>
      | (Some j, q) \<Rightarrow> sys\<lparr>queue := q, tasks := tasks sys @ [processJob j]\<rparr>)"

text \<open>The event loop resumes the \<open>k\<close>-th call in flight.\<close>

definition advance :: "nat \<Rightarrow> system \<Rightarrow> system" where
  "advance k sys =
     (if k < length (tasks sys) then
        (case resume (tasks sys ! k) (store sys) of
           (t', s') \<Rightarrow> sys\<lparr>store := s', tasks := (tasks sys)[k := t']\<rparr>)
      else sys)"

fun worker_loop :: "nat \<Rightarrow> system \<Rightarrow> system" where
  "worker_loop 0 sys = sys"
| "worker_loop (Suc n) sys = worker_loop n (tick sys)"

section \<open>The charge routes (routes/charges.js)\<close>

text \<open>The body of a request as parsed JSON, \<^verbatim>\<open>req.auth.merchant_id\<close> and \<^verbatim>\<open>req.params.id\<close>
  are arguments; \<^verbatim>\<open>uuidv4()\<close> is an argument too. A response is its status code and body.\<close>

record charge_body =
  body_amount :: "int option"
  body_currency :: "string option"
  body_source :: "string option"
  body_description :: "string option"

datatype body =
    ChargeObject charge
  | Row row
  | Undefined
  | Error string
  | ListObject bool "row list"    \<comment> \<open>\<^verbatim>\<open>{ object: 'list', has_more, data }\<close>\<close>

type_synonym response = "nat \<times> body"

text \<open>\<^verbatim>\<open>validateCharge\<close>: \<^verbatim>\<open>!amount || !currency || !source\<close>.\<close>

definition validateCharge :: "charge_body \<Rightarrow> bool" where
  "validateCharge b \<longleftrightarrow>
     \<not> (body_amount b = None \<or> body_amount b = Some 0
        \<or> falsy (body_currency b) \<or> falsy (body_source b))"

text \<open>\<^verbatim>\<open>router.post('/')\<close> (lines 46-63).\<close>

definition post_charge :: "string \<Rightarrow> string \<Rightarrow> charge_body \<Rightarrow> system \<Rightarrow> response \<times> system" where
  "post_charge uuid merchantId b sys =
     (case (body_amount b, body_currency b) of
        (Some a, Some c) \<Rightarrow>
          if validateCharge b then
            (let ch = \<lparr>id' = ''ch_'' @ uuid, merchant_id = merchantId, amount = a, currency = c,
                       status = ''pending'', description = body_description b\<rparr>
             in ((202, ChargeObject ch),
                 sys\<lparr>queue := enqueue \<lparr>type' = ''process_charge'',
                                        data = charge.extend ch \<lparr>source = body_source b\<rparr>\<rparr> (queue sys)\<rparr>))
          else ((400, Error ''Amount, currency, and source are required.''), sys)
      | _ \<Rightarrow> ((400, Error ''Amount, currency, and source are required.''), sys))"

text \<open>\<^verbatim>\<open>router.get('/:id')\<close> (lines 89-102).\<close>

definition get_charge :: "string \<Rightarrow> string \<Rightarrow> db \<Rightarrow> response \<times> db" where
  "get_charge i merchantId d =
     (case select_charge i merchantId d of
        (Inr [], d') \<Rightarrow> ((404, Error ''Charge not found or is still being processed.''), d')
      | (Inr (r # rs), d') \<Rightarrow> ((200, Row r), d')
      | (Inl e, d') \<Rightarrow> ((500, Error ''Internal Server Error''), d'))"

text \<open>\<^verbatim>\<open>validateMetadata\<close>: \<^verbatim>\<open>!metadata || typeof metadata !== 'object'\<close>. Of the JSON values
  only objects and arrays are truthy with \<^verbatim>\<open>typeof\<close> \<^verbatim>\<open>'object'\<close>.\<close>

fun validateMetadata :: "json option \<Rightarrow> bool" where
  "validateMetadata (Some (JObject kvs)) = True"
| "validateMetadata (Some (JArray vs)) = True"
| "validateMetadata _ = False"

text \<open>\<^verbatim>\<open>router.post('/:id')\<close> (lines 189-209).\<close>

definition post_metadata :: "string \<Rightarrow> string \<Rightarrow> json option \<Rightarrow> db \<Rightarrow> response \<times> db" where
  "post_metadata i merchantId md d =
     (case md of
        None \<Rightarrow> ((400, Error ''Metadata must be an object.''), d)
      | Some v \<Rightarrow>
          if validateMetadata md then
            (case update_metadata v i merchantId d of
               (Inr [], d') \<Rightarrow> ((404, Error ''Charge not found or not authorized.''), d')
             | (Inr (r # rs), d') \<Rightarrow> ((200, Row r), d')
             | (Inl e, d') \<Rightarrow> ((500, Error ''Internal Server Error''), d'))
          else ((400, Error ''Metadata must be an object.''), d))"

text \<open>\<^verbatim>\<open>router.post('/:id/capture')\<close> (lines 237-265). \<^verbatim>\<open>rows[0]\<close> of an empty result is
  \<^verbatim>\<open>undefined\<close>.\<close>

definition capture :: "string \<Rightarrow> string \<Rightarrow> db \<Rightarrow> response \<times> db" where
  "capture i merchantId d =
     (case select_status i merchantId d of
        (Inl e, d') \<Rightarrow> ((500, Error ''Internal Server Error''), d')
      | (Inr [], d') \<Rightarrow> ((404, Error ''Charge not found or not authorized.''), d')
      | (Inr (st # sts), d') \<Rightarrow>
          if st \<noteq> ''authorized'' then
            ((400, Error ''Charge cannot be captured: Status is not authorized.''), d')
          else
            (case update_status ''captured'' i merchantId d' of
               (Inl e, d'') \<Rightarrow> ((500, Error ''Internal Server Error''), d'')
             | (Inr [], d'') \<Rightarrow> ((200, Undefined), d'')
             | (Inr (r # rs), d'') \<Rightarrow> ((200, Row r), d'')))"

text \<open>\<^verbatim>\<open>parseInt(req.query.limit, 10) || 10\<close>: the parameter is \<open>None\<close> when it is absent or
  not a number; \<^verbatim>\<open>0\<close> is falsy.\<close>

definition page_param :: "int option \<Rightarrow> int \<Rightarrow> int" where
  "page_param x dflt = (case x of None \<Rightarrow> dflt | Some n \<Rightarrow> if n = 0 then dflt else n)"

text \<open>\<^verbatim>\<open>router.get('/')\<close> (lines 132-151).\<close>

definition list_charges :: "int option \<Rightarrow> int option \<Rightarrow> string \<Rightarrow> db \<Rightarrow> response \<times> db" where
  "list_charges qlimit qoffset merchantId d =
     (let limit = page_param qlimit 10; offset = page_param qoffset 0 in
      case select_charges merchantId limit offset d of
        (Inl e, d') \<Rightarrow> ((500, Error ''Internal Server Error''), d')
      | (Inr rows, d') \<Rightarrow>
          (case count_charges merchantId d' of
             (Inl e, d'') \<Rightarrow> ((500, Error ''Internal Server Error''), d'')
           | (Inr totalCharges, d'') \<Rightarrow>
               ((200, ListObject (offset + limit < int totalCharges) rows), d'')))"

text \<open>The template \<^verbatim>\<open>`%${id}%`\<close>.\<close>

definition containing :: "string \<Rightarrow> string" where
  "containing i = ''%'' @ i @ ''%''"

text \<open>\<^verbatim>\<open>router.get('/:id/charges')\<close> of routes/customers.js (lines 43-75).\<close>

definition customer_charges ::
  "(string \<times> string) list \<Rightarrow> string \<Rightarrow> int option \<Rightarrow> int option \<Rightarrow> string \<Rightarrow> db
     \<Rightarrow> response \<times> db" where
  "customer_charges customers i qlimit qoffset merchantId d =
     (let limit = page_param qlimit 10; offset = page_param qoffset 0 in
      case select_customer customers i merchantId d of
        (Inl e, d0) \<Rightarrow> ((500, Error ''Internal Server Error''), d0)
      | (Inr [], d0) \<Rightarrow> ((404, Error ''Customer not found or not authorized.''), d0)
      | (Inr (c # cs), d0) \<Rightarrow>
          (case select_charges_like merchantId (containing i) limit offset d0 of
             (Inl e, d') \<Rightarrow> ((500, Error ''Internal Server Error''), d')
           | (Inr rows, d') \<Rightarrow>
               (case count_charges_like merchantId (containing i) d' of
                  (Inl e, d'') \<Rightarrow> ((500, Error ''Internal Server Error''), d'')
                | (Inr n, d'') \<Rightarrow>
                    ((200, ListObject (offset + limit < int n) rows), d''))))"

section \<open>The running process\<close>

text \<open>What happens in the process, one event at a time: a firing of the timer, the
  resumption of a call in flight, a call of \<^verbatim>\<open>enqueue\<close>, a request to one of the routes
  above, the registration of a merchant (the insert of routes/merchants.js line 43, as its
  effect on the merchant ids), and a change of the times at which the store is
  unreachable. \<open>run\<close> applies a sequence of events; \<open>started\<close> is the process when
  \<^verbatim>\<open>startWorker\<close> is called: no call in flight, and a table that obeys the primary key and
  the type of the column \<^verbatim>\<open>id\<close>.\<close>

datatype event =
    Tick
  | Advance nat
  | Enqueued job
  | PostCharge string string charge_body
  | GetCharge string string
  | ListCharges "int option" "int option" string
  | CustomerCharges "(string \<times> string) list" string "int option" "int option" string
  | PostMetadata string string "json option"
  | Capture string string
  | Registered string
  | Outages "bool list"

fun step :: "event \<Rightarrow> system \<Rightarrow> system" where
  "step Tick sys = tick sys"
| "step (Advance k) sys = advance k sys"
| "step (Enqueued j) sys = sys\<lparr>queue := enqueue j (queue sys)\<rparr>"
| "step (PostCharge uuid m b) sys = snd (post_charge uuid m b sys)"
| "step (GetCharge i m) sys = sys\<lparr>store := snd (get_charge i m (store sys))\<rparr>"
| "step (ListCharges ql qo m) sys = sys\<lparr>store := snd (list_charges ql qo m (store sys))\<rparr>"
| "step (CustomerCharges cs i ql qo m) sys =
     sys\<lparr>store := snd (customer_charges cs i ql qo m (store sys))\<rparr>"
| "step (PostMetadata i m md) sys = sys\<lparr>store := snd (post_metadata i m md (store sys))\<rparr>"
| "step (Capture i m) sys = sys\<lparr>store := snd (capture i m (store sys))\<rparr>"
| "step (Registered m) sys = sys\<lparr>store := (store sys)\<lparr>merchants := merchants (store sys) @ [m]\<rparr>\<rparr>"
| "step (Outages bs) sys = sys\<lparr>store := (store sys)\<lparr>outages := bs\<rparr>\<rparr>"

fun run :: "event list \<Rightarrow> system \<Rightarrow> system" where
  "run [] sys = sys"
| "run (e # es) sys = run es (step e sys)"

definition started :: "system \<Rightarrow> bool" where
  "started sys \<longleftrightarrow>
     tasks sys = []
     \<and> distinct (map id' (charges (store sys)))
     \<and> list_all (\<lambda>r. length (id' r) \<le> 255) (charges (store sys))"

section \<open>Notions used to state the properties\<close>

text \<open>The fields of a row that the specification calls immutable; a row with its status
  and its metadata blanked, that is all of the row but the two fields that may change; and
  the relation between a table and a later one in which every row of the former is still
  there, in place, with the immutable fields unchanged and with nothing changed but status
  and metadata.\<close>

definition immutable_fields :: "row \<Rightarrow> string \<times> string \<times> int \<times> string" where
  "immutable_fields r = (id' r, merchant_id r, amount r, currency r)"

definition unchanging :: "row \<Rightarrow> row" where
  "unchanging r = r\<lparr>status := [], metadata := None\<rparr>"

definition rows_kept :: "db \<Rightarrow> db \<Rightarrow> bool" where
  "rows_kept d d' \<longleftrightarrow>
     map immutable_fields (take (length (charges d)) (charges d')) = map immutable_fields (charges d)
     \<and> map unchanging (take (length (charges d)) (charges d')) = map unchanging (charges d)"

text \<open>The table with the rows of charge \<open>i\<close> of merchant \<open>m\<close> blanked out: what a statement
  scoped by \<open>(i, m)\<close> must leave as it is.\<close>

definition outside :: "string \<Rightarrow> string \<Rightarrow> db \<Rightarrow> row option list" where
  "outside i m d = map (\<lambda>r. if id' r = i \<and> merchant_id r = m then None else Some r) (charges d)"

text \<open>The job of a call in flight, and whether the call is past its pending insert.\<close>

fun task_data :: "task \<Rightarrow> job_data option" where
  "task_data (AwaitInsert d) = Some d"
| "task_data (AwaitTimeout d) = Some d"
| "task_data (AwaitUpdate d) = Some d"
| "task_data (AwaitFallback d) = Some d"
| "task_data Fulfilled = None"
| "task_data (Rejected e) = None"

fun past_insert :: "task \<Rightarrow> job_data option" where
  "past_insert (AwaitTimeout d) = Some d"
| "past_insert (AwaitUpdate d) = Some d"
| "past_insert t = None"

text \<open>What the primary key, the column type of \<^verbatim>\<open>id\<close> and the order of the statements of
  \<^verbatim>\<open>processJob\<close> maintain in a running process: the ids of the table are distinct and fit
  \<^verbatim>\<open>VARCHAR(255)\<close>, and the row that a call past its pending insert has inserted is in the
  table, under the id as stored and the merchant id of its job.\<close>

definition has_row :: "db \<Rightarrow> task \<Rightarrow> bool" where
  "has_row d t =
     (case past_insert t of
        None \<Rightarrow> True
      | Some jd \<Rightarrow>
          list_ex (\<lambda>r. varchar 255 (id' jd) = Some (id' r) \<and> merchant_id r = merchant_id jd)
            (charges d))"

definition consistent :: "system \<Rightarrow> bool" where
  "consistent sys \<longleftrightarrow>
     distinct (map id' (charges (store sys)))
     \<and> list_all (\<lambda>r. length (id' r) \<le> 255) (charges (store sys))
     \<and> list_all (has_row (store sys)) (tasks sys)"

text \<open>The three shapes of the table after one statement: as before, one row appended
  under a new id that fits its column, or rows rewritten with their ids and merchant ids
  kept.\<close>

definition table_step :: "db \<Rightarrow> db \<Rightarrow> bool" where
  "table_step d d' \<longleftrightarrow>
     charges d' = charges d
     \<or> (\<exists>r. charges d' = charges d @ [r] \<and> id' r \<notin> set (map id' (charges d)) \<and> length (id' r) \<le> 255)
     \<or> (\<exists>f. charges d' = map f (charges d) \<and> (\<forall>r. id' (f r) = id' r \<and> merchant_id (f r) = merchant_id r))"

section \<open>The scenarios of the specification\<close>

text \<open>The jobs of scenarios 1 to 3, completed with a merchant, and a store that knows this
  merchant and holds no charge yet.\<close>

definition job_ch_1 :: job where
  "job_ch_1 =
     \<lparr>type' = ''process_charge'',
      data = \<lparr>id' = ''ch_1'', merchant_id = ''m_1'', amount = 500, currency = ''usd'',
              status = ''pending'', description = None, source = Some ''valid_token''\<rparr>\<rparr>"

definition job_ch_2 :: job where
  "job_ch_2 =
     \<lparr>type' = ''process_charge'',
      data = \<lparr>id' = ''ch_2'', merchant_id = ''m_1'', amount = 500, currency = ''usd'',
              status = ''pending'', description = None, source = Some ''bad_token''\<rparr>\<rparr>"

definition job_ch_3 :: job where
  "job_ch_3 =
     \<lparr>type' = ''process_charge'',
      data = \<lparr>id' = ''ch_3'', merchant_id = ''m_1'', amount = 500, currency = ''usd'',
              status = ''pending'', description = None, source = Some []\<rparr>\<rparr>"

definition empty_store :: db where
  "empty_store = \<lparr>merchants = [''m_1''], charges = [], outages = []\<rparr>"

text \<open>An authorized charge with a description.\<close>

definition described_charge :: row where
  "described_charge =
     \<lparr>id' = ''ch_8'', merchant_id = ''m_1'', amount = 1200, currency = ''usd'',
      status = ''authorized'', description = Some ''first order'', metadata = None\<rparr>"

text \<open>A process started on a table that holds a charge of another merchant.\<close>

definition other_charge :: row where
  "other_charge =
     \<lparr>id' = ''ch_7'', merchant_id = ''m_2'', amount = 900, currency = ''eur'',
      status = ''pending'', description = None, metadata = None\<rparr>"

definition two_merchants :: system where
  "two_merchants =
     \<lparr>queue = [],
      store = \<lparr>merchants = [''m_1'', ''m_2''], charges = [other_charge], outages = []\<rparr>,
      tasks = []\<rparr>"

section \<open>Facts about the store and about a settlement\<close>

lemma connect_charges [simp]: "charges (snd (connect d)) = charges d"
  and connect_merchants [simp]: "merchants (snd (connect d)) = merchants d"
  by (auto simp: connect_def split: list.splits)

lemma check_row_outages [simp]: "check_row (d\<lparr>outages := bs\<rparr>) r = check_row d r"
  by (simp add: check_row_def split: option.splits)

lemma settle_done: "settled t \<Longrightarrow> settle t s = [(t, s)]"
  by (subst settle.simps) simp

lemma settle_step: "\<not> settled t \<Longrightarrow> resume t s = (t', s') \<Longrightarrow> settle t s = (t, s) # settle t' s'"
  by (subst settle.simps) simp

lemma connect_cases:
  obtains (down) "connect d = (False, d\<lparr>outages := tl (outages d)\<rparr>)" "outages d \<noteq> []" "hd (outages d)"
  | (up) "connect d = (True, d\<lparr>outages := tl (outages d)\<rparr>)" "True \<notin> set (take 1 (outages d))"
  by (cases "outages d") (auto simp: connect_def)

lemma connect_up: "True \<notin> set (take 1 (outages d)) \<Longrightarrow> connect d = (True, d\<lparr>outages := tl (outages d)\<rparr>)"
  by (cases "outages d") (auto simp: connect_def)

lemma check_row_fresh: "check_row d r = Inr r' \<Longrightarrow> id' r' \<notin> set (map id' (charges d))"
  by (auto simp: check_row_def split: option.splits if_splits)

lemma insert_charge_accepted:
  "check_row d r = Inr r' \<Longrightarrow> True \<notin> set (take 1 (outages d)) \<Longrightarrow>
   insert_charge r d = (Inr (), d\<lparr>outages := tl (outages d), charges := charges d @ [r']\<rparr>)"
  by (simp add: insert_charge_def connect_up)

lemma update_status_by_id_served:
  "True \<notin> set (take 1 (outages d)) \<Longrightarrow>
   update_status_by_id st i d =
     (Inr (), d\<lparr>outages := tl (outages d),
                charges := map (\<lambda>r. if id' r = i then r\<lparr>status := st\<rparr> else r) (charges d)\<rparr>)"
  by (simp add: update_status_by_id_def connect_up)

lemma update_fresh: "i \<notin> set (map id' rs) \<Longrightarrow> map (\<lambda>r. if id' r = i then r\<lparr>status := st\<rparr> else r) rs = rs"
  by (induction rs) auto

lemma take2: "True \<notin> set (take 2 bs) \<Longrightarrow> True \<notin> set (take 1 bs) \<and> True \<notin> set (take 1 (tl bs))"
  by (cases bs; cases "tl bs") auto

lemma settle_hd: "settle t s ! 0 = (t, s)"
  by (subst settle.simps) simp

lemma settle_nth_resume:
  "Suc k < length (settle t s) \<Longrightarrow>
   settle t s ! Suc k = resume (fst (settle t s ! k)) (snd (settle t s ! k))"
proof (induction t s arbitrary: k rule: settle.induct)
  case (1 t s)
  show ?case
  proof (cases "settled t")
    case True
    with "1.prems" show ?thesis by (simp add: settle_done)
  next
    case False
    obtain t' s' where r: "resume t s = (t', s')" by (cases "resume t s")
    have unfold: "settle t s = (t, s) # settle t' s'"
      using False r by (rule settle_step)
    show ?thesis
    proof (cases k)
      case 0
      then show ?thesis by (simp add: unfold settle_hd r)
    next
      case (Suc k')
      with "1.prems" have "Suc k' < length (settle t' s')" by (simp add: unfold)
      with "1.IH" [OF False r [symmetric]] Suc show ?thesis by (simp add: unfold)
    qed
  qed
qed

lemma check_row_status: "check_row d r = Inr r' \<Longrightarrow> status r' = status r"
  by (auto simp: check_row_def split: option.splits if_splits)

lemma insert_charge_charges:
  "charges (snd (insert_charge r d)) = charges d
   \<or> (\<exists>r'. check_row d r = Inr r' \<and> charges (snd (insert_charge r d)) = charges d @ [r'])"
  by (cases d rule: connect_cases) (auto simp: insert_charge_def split: sum.splits)

lemma update_status_by_id_charges:
  "charges (snd (update_status_by_id st i d)) = charges d
   \<or> charges (snd (update_status_by_id st i d)) =
       map (\<lambda>r. if id' r = i then r\<lparr>status := st\<rparr> else r) (charges d)"
  by (cases d rule: connect_cases) (auto simp: update_status_by_id_def)

lemma update_ids:
  "map id' (map (\<lambda>r. if id' r = i then r\<lparr>status := st\<rparr> else r) rs) = map id' rs"
  by (induction rs) auto

lemma update_status_by_id_ids:
  "map id' (charges (snd (update_status_by_id st i d))) = map id' (charges d)"
  using update_status_by_id_charges [of st i d] by (auto simp: update_ids)

lemma resume_no_direct_succeeded:
  assumes "i \<notin> set (map id' (charges s))" and "r \<in> set (charges (snd (resume t s)))" and "id' r = i"
  shows "status r \<noteq> ''succeeded''"
proof (cases t)
  case (AwaitInsert d)
  with assms insert_charge_charges [of "charge_row d ''pending''" s] check_row_status [of s "charge_row d ''pending''"]
  show ?thesis by (auto simp: charge_row_def split: prod.splits sum.splits)
next
  case (AwaitFallback d)
  with assms insert_charge_charges [of "charge_row d ''failed''" s] check_row_status [of s "charge_row d ''failed''"]
  show ?thesis by (auto simp: charge_row_def split: prod.splits sum.splits)
next
  case (AwaitUpdate d)
  have "snd (resume t s) = snd (update_status_by_id ''succeeded'' (id' d) s)"
    by (simp add: AwaitUpdate split: prod.splits sum.splits)
  then have "map id' (charges (snd (resume t s))) = map id' (charges s)"
    by (simp add: update_status_by_id_ids)
  moreover have "id' r \<in> set (map id' (charges (snd (resume t s))))"
    using assms(2) by simp
  ultimately show ?thesis using assms(1,3) by simp
qed (use assms in auto)

section \<open>The settlement of a job with the accepted token\<close>

text \<open>
  C1 (amended). Take a job of type \<^verbatim>\<open>process_charge\<close> whose source token is
  \<^verbatim>\<open>valid_token\<close>, and suppose the store accepts the row of the pending insert as it is
  (the id is not yet in the table, the merchant is registered, id, amount and currency
  fit their columns) and is reachable for the two statements. Then the settlement is
  exactly: at \<open>AwaitInsert\<close> the table is as before; the insert appends the row with
  status \<^verbatim>\<open>pending\<close> carrying the job's id, merchant id, amount, currency and description;
  after the timeout the update turns that row to \<^verbatim>\<open>succeeded\<close> and the promise is
  fulfilled; the final table holds one row for the id, with status \<^verbatim>\<open>succeeded\<close> and the
  job's amount. And for every job and every store, no step of a settlement takes an id
  from absent to a row with status \<^verbatim>\<open>succeeded\<close>.
\<close>

theorem C1_valid_token_settles:
  "(type' j = ''process_charge'' \<and> source (data j) = Some ''valid_token''
    \<and> check_row s (charge_row (data j) ''pending'') = Inr (charge_row (data j) ''pending'')
    \<and> True \<notin> set (take 2 (outages s))
    \<longrightarrow> map (\<lambda>(t, s'). (t, charges s')) (settle (processJob j) s) =
           [(AwaitInsert (data j), charges s),
            (AwaitTimeout (data j), charges s @ [charge_row (data j) ''pending'']),
            (AwaitUpdate (data j), charges s @ [charge_row (data j) ''pending'']),
            (Fulfilled, charges s @ [charge_row (data j) ''succeeded''])]
        \<and> filter (\<lambda>r. id' r = id' (data j)) (charges (snd (last (settle (processJob j) s)))) =
           [\<lparr>id' = id' (data j), merchant_id = merchant_id (data j), amount = amount (data j),
             currency = currency (data j), status = ''succeeded'',
             description = description (data j), metadata = None\<rparr>])
   \<and> (\<forall>k i. Suc k < length (settle (processJob j) s)
          \<and> i \<notin> set (map id' (charges (snd (settle (processJob j) s ! k))))
        \<longrightarrow> (\<forall>r \<in> set (charges (snd (settle (processJob j) s ! Suc k))).
               id' r = i \<longrightarrow> status r \<noteq> ''succeeded''))"
proof (intro conjI impI allI ballI; (elim conjE)?)
  fix k i r
  assume "Suc k < length (settle (processJob j) s)"
    and "i \<notin> set (map id' (charges (snd (settle (processJob j) s ! k))))"
    and "r \<in> set (charges (snd (settle (processJob j) s ! Suc k)))" and "id' r = i"
  then show "status r \<noteq> ''succeeded''"
    using resume_no_direct_succeeded settle_nth_resume by metis
next
  assume a1: "type' j = ''process_charge''" and a2: "source (data j) = Some ''valid_token''"
    and a3: "check_row s (charge_row (data j) ''pending'') = Inr (charge_row (data j) ''pending'')"
    and a4: "True \<notin> set (take 2 (outages s))"
  let ?d = "data j"
  let ?p = "charge_row ?d ''pending''"
  have up: "True \<notin> set (take 1 (outages s))" "True \<notin> set (take 1 (tl (outages s)))"
    using a4 take2 by blast+
  have start: "processJob j = AwaitInsert ?d"
    using a1 a2 by (simp add: processJob_def falsy_def)
  let ?s1 = "s\<lparr>outages := tl (outages s), charges := charges s @ [?p]\<rparr>"
  have ins: "insert_charge ?p s = (Inr (), ?s1)"
    using a3 up(1) by (rule insert_charge_accepted)
  have fresh: "id' ?d \<notin> set (map id' (charges s))"
    using check_row_fresh [OF a3] by (simp add: charge_row_def)
  let ?s2 = "s\<lparr>outages := tl (tl (outages s)), charges := charges s @ [charge_row ?d ''succeeded'']\<rparr>"
  have "map (\<lambda>r. if id' r = id' ?d then r\<lparr>status := ''succeeded''\<rparr> else r) (charges ?s1)
          = charges s @ [charge_row ?d ''succeeded'']"
    using fresh update_fresh [of "id' ?d" "charges s" "''succeeded''"] by (simp add: charge_row_def)
  moreover have "True \<notin> set (take 1 (outages ?s1))"
    using up(2) by simp
  ultimately have upd: "update_status_by_id ''succeeded'' (id' ?d) ?s1 = (Inr (), ?s2)"
    by (simp add: update_status_by_id_served)
  have "settle (AwaitInsert ?d) s = (AwaitInsert ?d, s) # settle (AwaitTimeout ?d) ?s1"
    by (rule settle_step) (simp_all add: ins)
  also have "settle (AwaitTimeout ?d) ?s1 = (AwaitTimeout ?d, ?s1) # settle (AwaitUpdate ?d) ?s1"
    by (rule settle_step) simp_all
  also have "settle (AwaitUpdate ?d) ?s1 = (AwaitUpdate ?d, ?s1) # settle Fulfilled ?s2"
    by (rule settle_step) (simp_all add: upd)
  also have "settle Fulfilled ?s2 = [(Fulfilled, ?s2)]"
    by (rule settle_done) simp
  finally have tr: "settle (processJob j) s =
      [(AwaitInsert ?d, s), (AwaitTimeout ?d, ?s1), (AwaitUpdate ?d, ?s1), (Fulfilled, ?s2)]"
    by (simp add: start)
  show "map (\<lambda>(t, s'). (t, charges s')) (settle (processJob j) s) =
           [(AwaitInsert (data j), charges s),
            (AwaitTimeout (data j), charges s @ [charge_row (data j) ''pending'']),
            (AwaitUpdate (data j), charges s @ [charge_row (data j) ''pending'']),
            (Fulfilled, charges s @ [charge_row (data j) ''succeeded''])]"
    by (simp add: tr)
  have "\<And>x. x \<in> set (charges s) \<Longrightarrow> id' x \<noteq> id' ?d"
    using fresh by (metis image_eqI set_map)
  then have "filter (\<lambda>r. id' r = id' ?d) (charges s) = []"
    by (simp add: filter_empty_conv)
  then show "filter (\<lambda>r. id' r = id' (data j)) (charges (snd (last (settle (processJob j) s)))) =
           [\<lparr>id' = id' (data j), merchant_id = merchant_id (data j), amount = amount (data j),
             currency = currency (data j), status = ''succeeded'',
             description = description (data j), metadata = None\<rparr>]"
    by (simp add: tr charge_row_def)
qed

text \<open>Scenario 1 of the specification is an instance.\<close>

theorem C1_valid_token_settles_witness:
  "type' job_ch_1 = ''process_charge'' \<and> source (data job_ch_1) = Some ''valid_token''
   \<and> check_row empty_store (charge_row (data job_ch_1) ''pending'')
       = Inr (charge_row (data job_ch_1) ''pending'')
   \<and> True \<notin> set (take 2 (outages empty_store))
   \<and> map (\<lambda>(t, s'). (t, charges s')) (settle (processJob job_ch_1) empty_store) =
       [(AwaitInsert (data job_ch_1), []),
        (AwaitTimeout (data job_ch_1), [charge_row (data job_ch_1) ''pending'']),
        (AwaitUpdate (data job_ch_1), [charge_row (data job_ch_1) ''pending'']),
        (Fulfilled, [charge_row (data job_ch_1) ''succeeded''])]
   \<and> filter (\<lambda>r. id' r = ''ch_1'') (charges (snd (last (settle (processJob job_ch_1) empty_store)))) =
       [\<lparr>id' = ''ch_1'', merchant_id = ''m_1'', amount = 500, currency = ''usd'',
         status = ''succeeded'', description = None, metadata = None\<rparr>]"
  using C1_valid_token_settles [of job_ch_1 empty_store]
  by (simp add: job_ch_1_def empty_store_def check_row_def varchar_def int4_def charge_row_def)

text \<open>Without these conditions the claim fails: when the store is unreachable for the
  pending insert, the job of scenario 1 is caught by the \<^verbatim>\<open>catch\<close> block and recorded as
  \<^verbatim>\<open>failed\<close>; no row with status \<^verbatim>\<open>pending\<close> or \<^verbatim>\<open>succeeded\<close> ever exists.\<close>

theorem C1_counterexample:
  "type' job_ch_1 = ''process_charge'' \<and> source (data job_ch_1) = Some ''valid_token''
   \<and> map (\<lambda>(t, s'). (t, map (\<lambda>r. (id' r, status r)) (charges s')))
        (settle (processJob job_ch_1) (empty_store\<lparr>outages := [True]\<rparr>)) =
       [(AwaitInsert (data job_ch_1), []),
        (AwaitFallback (data job_ch_1), []),
        (Fulfilled, [(''ch_1'', ''failed'')])]"
  by (simp add: job_ch_1_def empty_store_def processJob_def falsy_def settle.simps
      insert_charge_def connect_def check_row_def varchar_def int4_def charge_row_def)

section \<open>The settlement of a job without the accepted token\<close>

lemma insert_charge_status:
  "r \<in> set (charges (snd (insert_charge r0 d))) \<Longrightarrow> r \<in> set (charges d) \<or> status r = status r0"
  using insert_charge_charges [of r0 d] check_row_status [of d r0] by auto

text \<open>
  C2 (amended). Take a job of type \<^verbatim>\<open>process_charge\<close> whose source token is absent, empty
  or anything but \<^verbatim>\<open>valid_token\<close>. The call goes straight to the insert of the \<^verbatim>\<open>catch\<close>
  block: the settlement has this one await, it is never at the pending insert, the timeout
  or the update, and in each of its states the rows with status \<^verbatim>\<open>pending\<close> are those the
  table had before. If the store is reachable and accepts the row with status \<^verbatim>\<open>failed\<close>
  as it is, that row is appended and the promise is fulfilled. A charge passes through
  \<^verbatim>\<open>pending\<close> only if its job passed the validation (the contrapositive).
\<close>

theorem C2_invalid_token_fails_directly:
  assumes "type' j = ''process_charge''" and "source (data j) \<noteq> Some ''valid_token''"
  shows "processJob j = AwaitFallback (data j)
    \<and> length (settle (processJob j) s) = 2
    \<and> (\<forall>(t, s') \<in> set (settle (processJob j) s).
          (t = AwaitFallback (data j) \<or> settled t)
          \<and> filter (\<lambda>r. status r = ''pending'') (charges s')
              = filter (\<lambda>r. status r = ''pending'') (charges s))
    \<and> (check_row s (charge_row (data j) ''failed'') = Inr (charge_row (data j) ''failed'')
        \<and> True \<notin> set (take 1 (outages s))
        \<longrightarrow> map (\<lambda>(t, s'). (t, charges s')) (settle (processJob j) s) =
              [(AwaitFallback (data j), charges s),
               (Fulfilled, charges s @ [charge_row (data j) ''failed''])])"
proof -
  let ?d = "data j"
  let ?f = "charge_row ?d ''failed''"
  have start: "processJob j = AwaitFallback ?d"
    using assms by (auto simp: processJob_def falsy_def)
  obtain t' s' where r: "resume (AwaitFallback ?d) s = (t', s')"
    by (cases "resume (AwaitFallback ?d) s")
  have fin: "settled t'"
    using r by (auto split: prod.splits sum.splits)
  have tr: "settle (processJob j) s = [(AwaitFallback ?d, s), (t', s')]"
    using settle_step [of "AwaitFallback ?d" s t' s'] r fin by (simp add: start settle_done)
  have s': "s' = snd (insert_charge ?f s)"
    using r by (auto split: prod.splits sum.splits)
  have "charges s' = charges s \<or> (\<exists>r'. status r' = ''failed'' \<and> charges s' = charges s @ [r'])"
    using insert_charge_charges [of ?f s] check_row_status [of s ?f]
    by (auto simp: s' charge_row_def)
  then have pend: "filter (\<lambda>r. status r = ''pending'') (charges s')
              = filter (\<lambda>r. status r = ''pending'') (charges s)"
    by auto
  have acc: "map (\<lambda>(t, s'). (t, charges s')) (settle (processJob j) s) =
              [(AwaitFallback ?d, charges s), (Fulfilled, charges s @ [?f])]"
    if "check_row s ?f = Inr ?f" and "True \<notin> set (take 1 (outages s))"
    using r insert_charge_accepted [OF that] by (auto simp: tr)
  show ?thesis
    using start tr fin pend acc by simp
qed

text \<open>Scenarios 2 and 3 of the specification are instances.\<close>

theorem C2_invalid_token_fails_directly_witness:
  "type' job_ch_2 = ''process_charge'' \<and> source (data job_ch_2) \<noteq> Some ''valid_token''
   \<and> check_row empty_store (charge_row (data job_ch_2) ''failed'')
       = Inr (charge_row (data job_ch_2) ''failed'')
   \<and> True \<notin> set (take 1 (outages empty_store))
   \<and> processJob job_ch_2 = AwaitFallback (data job_ch_2)
   \<and> map (\<lambda>(t, s'). (t, charges s')) (settle (processJob job_ch_2) empty_store) =
       [(AwaitFallback (data job_ch_2), []),
        (Fulfilled, [\<lparr>id' = ''ch_2'', merchant_id = ''m_1'', amount = 500, currency = ''usd'',
                      status = ''failed'', description = None, metadata = None\<rparr>])]
   \<and> type' job_ch_3 = ''process_charge'' \<and> source (data job_ch_3) \<noteq> Some ''valid_token''
   \<and> processJob job_ch_3 = AwaitFallback (data job_ch_3)"
  using C2_invalid_token_fails_directly [of job_ch_2 empty_store]
    C2_invalid_token_fails_directly [of job_ch_3 empty_store]
  by (simp add: job_ch_2_def job_ch_3_def empty_store_def check_row_def varchar_def int4_def
      charge_row_def processJob_def falsy_def settle.simps insert_charge_def connect_def)

text \<open>Recording the charge as \<^verbatim>\<open>failed\<close> depends on the store: when it is unreachable for
  the insert, the charge of scenario 2 is not recorded at all, and the promise is
  rejected.\<close>

theorem C2_counterexample:
  "type' job_ch_2 = ''process_charge'' \<and> source (data job_ch_2) = Some ''bad_token''
   \<and> map (\<lambda>(t, s'). (t, charges s'))
        (settle (processJob job_ch_2) (empty_store\<lparr>outages := [True]\<rparr>)) =
       [(AwaitFallback (data job_ch_2), []), (Rejected ConnectionError, [])]"
  by (simp add: job_ch_2_def empty_store_def processJob_def falsy_def settle.simps
      insert_charge_def connect_def)

section \<open>Failures inside a settlement\<close>

text \<open>
  C3 (fails on the code). The claim: no failure of a settlement leaves \<^verbatim>\<open>processJob\<close>; each
  is caught and turned into a charge recorded as \<^verbatim>\<open>failed\<close>, also when the pending insert
  has succeeded and the update fails. The code at that very case, scenario 1 with the store
  unreachable for the update only: the \<^verbatim>\<open>catch\<close> block inserts a second row with the same
  id, the primary key rejects it, the exception leaves the \<^verbatim>\<open>catch\<close> block and the promise
  of \<^verbatim>\<open>processJob\<close> is rejected; the charge stays \<^verbatim>\<open>pending\<close>.
\<close>

theorem C3_fallback_insert_collides:
  "map (\<lambda>(t, s'). (t, map (\<lambda>r. (id' r, status r)) (charges s')))
     (settle (processJob job_ch_1) (empty_store\<lparr>outages := [False, True]\<rparr>)) =
     [(AwaitInsert (data job_ch_1), []),
      (AwaitTimeout (data job_ch_1), [(''ch_1'', ''pending'')]),
      (AwaitUpdate (data job_ch_1), [(''ch_1'', ''pending'')]),
      (AwaitFallback (data job_ch_1), [(''ch_1'', ''pending'')]),
      (Rejected UniqueViolation, [(''ch_1'', ''pending'')])]"
  by (simp add: job_ch_1_def empty_store_def processJob_def falsy_def settle.simps
      insert_charge_def update_status_by_id_def connect_def check_row_def varchar_def int4_def
      charge_row_def)

section \<open>The queue is first-in first-out\<close>

lemma run_ops_conserves: "run_ops ops q = (out, q') \<Longrightarrow> out @ q' = q @ enqueued ops"
proof (induction ops q arbitrary: out q' rule: run_ops.induct)
  case (1 q)
  then show ?case by simp
next
  case (2 j ops q)
  then show ?case by (simp add: enqueue_def)
next
  case (3 ops q)
  show ?case
  proof (cases q)
    case Nil
    with 3 show ?thesis by (simp add: dequeue_def)
  next
    case (Cons j q0)
    obtain out0 q1 where r: "run_ops ops q0 = (out0, q1)" by (cases "run_ops ops q0")
    with 3 Cons show ?thesis by (auto simp: dequeue_def)
  qed
qed

text \<open>
  C5. \<^verbatim>\<open>enqueue\<close> appends the job at the tail, whatever the queue (it has no other
  outcome); \<^verbatim>\<open>dequeue\<close> removes and returns the head. For every interleaving of calls from
  any queue, the jobs handed out followed by the jobs left are the jobs of the queue
  followed by the jobs enqueued, in that order: the \<open>n\<close>-th job handed out is the \<open>n\<close>-th
  job put in, so a job enqueued before another is dequeued before it.
\<close>

theorem C5_queue_fifo:
  "enqueue j q = q @ [j]
   \<and> dequeue (a # q) = (Some a, q)
   \<and> fst (run_ops ops q) @ snd (run_ops ops q) = q @ enqueued ops
   \<and> (\<forall>n < length (fst (run_ops ops q)). fst (run_ops ops q) ! n = (q @ enqueued ops) ! n)"
proof -
  obtain out q' where r: "run_ops ops q = (out, q')" by (cases "run_ops ops q")
  then have c: "out @ q' = q @ enqueued ops" by (rule run_ops_conserves)
  have "\<forall>n < length out. out ! n = (q @ enqueued ops) ! n"
    using c by (metis nth_append)
  with r c show ?thesis by (simp add: enqueue_def dequeue_def)
qed

theorem C5_queue_fifo_witness:
  "fst (run_ops [Enqueue job_ch_1, Enqueue job_ch_2, Dequeue, Enqueue job_ch_3, Dequeue] [])
     = [job_ch_1, job_ch_2]
   \<and> snd (run_ops [Enqueue job_ch_1, Enqueue job_ch_2, Dequeue, Enqueue job_ch_3, Dequeue] [])
     = [job_ch_3]
   \<and> (0::nat) < length (fst (run_ops [Enqueue job_ch_1, Enqueue job_ch_2, Dequeue, Enqueue job_ch_3, Dequeue] []))
   \<and> fst (run_ops [Enqueue job_ch_1, Enqueue job_ch_2, Dequeue, Enqueue job_ch_3, Dequeue] []) ! 0
     = ([] @ enqueued [Enqueue job_ch_1, Enqueue job_ch_2, Dequeue, Enqueue job_ch_3, Dequeue]) ! 0"
  using C5_queue_fifo [where q = "[]" and ops = "[Enqueue job_ch_1, Enqueue job_ch_2, Dequeue, Enqueue job_ch_3, Dequeue]"]
  by (simp add: enqueue_def dequeue_def)

section \<open>Jobs of another type\<close>

text \<open>
  C10. A job whose type is not \<^verbatim>\<open>process_charge\<close> is removed from the queue by the
  \<^verbatim>\<open>dequeue\<close> of the tick; \<^verbatim>\<open>processJob\<close> returns a fulfilled promise at once, issues no
  query and raises nothing: the store after the tick and after the settlement is the
  store before, outage schedule included.
\<close>

theorem C10_other_job_types_discarded:
  assumes "type' j \<noteq> ''process_charge''"
  shows "dequeue (j # q) = (Some j, q)
    \<and> processJob j = Fulfilled
    \<and> settle (processJob j) s = [(Fulfilled, s)]
    \<and> tick \<lparr>queue = j # q, store = s, tasks = ts\<rparr> = \<lparr>queue = q, store = s, tasks = ts @ [Fulfilled]\<rparr>"
  using assms by (simp add: dequeue_def processJob_def settle_done tick_def)

theorem C10_other_job_types_discarded_witness:
  "type' (job_ch_1\<lparr>type' := ''refund''\<rparr>) \<noteq> ''process_charge''
   \<and> settle (processJob (job_ch_1\<lparr>type' := ''refund''\<rparr>)) empty_store = [(Fulfilled, empty_store)]
   \<and> tick \<lparr>queue = [job_ch_1\<lparr>type' := ''refund''\<rparr>, job_ch_2], store = empty_store, tasks = []\<rparr>
       = \<lparr>queue = [job_ch_2], store = empty_store, tasks = [Fulfilled]\<rparr>"
  using C10_other_job_types_discarded [of "job_ch_1\<lparr>type' := ''refund''\<rparr>" "[job_ch_2]" empty_store "[]"]
  by (simp add: job_ch_1_def processJob_def settle_done tick_def dequeue_def)

section \<open>The worker loop\<close>

text \<open>
  C8. \<^verbatim>\<open>dequeue\<close> on an empty queue returns \<^verbatim>\<open>undefined\<close> and leaves the queue empty; it
  raises nothing. A tick that finds the queue empty changes nothing at all: no call of
  \<^verbatim>\<open>processJob\<close>, no query. Any number of such ticks leaves the process as it was, and the
  tick after a later \<^verbatim>\<open>enqueue\<close> dispatches that job as usual.
\<close>

theorem C8_empty_queue_is_no_work:
  "dequeue [] = (None, [])
   \<and> (queue sys = [] \<longrightarrow>
        tick sys = sys \<and> worker_loop n sys = sys
        \<and> tick ((worker_loop n sys)\<lparr>queue := enqueue j (queue (worker_loop n sys))\<rparr>)
            = sys\<lparr>tasks := tasks sys @ [processJob j]\<rparr>)"
proof -
  have t: "tick sys = sys" if "queue sys = []"
    using that by (simp add: tick_def dequeue_def)
  have w: "worker_loop n sys = sys" if "queue sys = []"
    using that t by (induction n) simp_all
  show ?thesis
    using t w by (auto simp: dequeue_def tick_def enqueue_def)
qed

theorem C8_empty_queue_is_no_work_witness:
  "queue \<lparr>queue = [], store = empty_store, tasks = []\<rparr> = []
   \<and> tick \<lparr>queue = [], store = empty_store, tasks = []\<rparr> = \<lparr>queue = [], store = empty_store, tasks = []\<rparr>
   \<and> worker_loop 3 \<lparr>queue = [], store = empty_store, tasks = []\<rparr> = \<lparr>queue = [], store = empty_store, tasks = []\<rparr>
   \<and> tick ((worker_loop 3 \<lparr>queue = [], store = empty_store, tasks = []\<rparr>)\<lparr>queue := enqueue job_ch_1 []\<rparr>)
        = \<lparr>queue = [], store = empty_store, tasks = [AwaitInsert (data job_ch_1)]\<rparr>"
  using C8_empty_queue_is_no_work [of "\<lparr>queue = [], store = empty_store, tasks = []\<rparr>" 3 job_ch_1]
  by (auto simp: processJob_def job_ch_1_def falsy_def)

text \<open>
  C9. A tick calls \<^verbatim>\<open>dequeue\<close> once: the queue loses its head, if it has one, and nothing
  else. At most one call of \<^verbatim>\<open>processJob\<close> is added to those in flight, and the others are
  not touched. The tick does not wait for the call: the store is as before when the tick
  returns, and the call for a job of type \<^verbatim>\<open>process_charge\<close> is not settled but suspended at
  its first \<^verbatim>\<open>await\<close>. The next tick can fire in that state: two ticks in a row leave two
  settlements in flight. (The period of the timer is not part of the model.)
\<close>

theorem C9_one_dequeue_per_tick:
  "queue (tick sys) = snd (dequeue (queue sys))
   \<and> queue (tick sys) = drop 1 (queue sys)
   \<and> tasks (tick sys) =
        tasks sys @ (case fst (dequeue (queue sys)) of None \<Rightarrow> [] | Some j \<Rightarrow> [processJob j])
   \<and> length (tasks (tick sys)) \<le> length (tasks sys) + 1
   \<and> store (tick sys) = store sys
   \<and> (type' a = ''process_charge'' \<longrightarrow> \<not> settled (processJob a))
   \<and> tick (tick \<lparr>queue = a # b # q, store = s, tasks = ts\<rparr>)
        = \<lparr>queue = q, store = s, tasks = ts @ [processJob a, processJob b]\<rparr>"
  by (cases "queue sys") (auto simp: tick_def dequeue_def processJob_def Let_def)

theorem C9_one_dequeue_per_tick_witness:
  "type' job_ch_1 = ''process_charge''
   \<and> \<not> settled (processJob job_ch_1)
   \<and> tick \<lparr>queue = [job_ch_1, job_ch_2], store = empty_store, tasks = []\<rparr>
        = \<lparr>queue = [job_ch_2], store = empty_store, tasks = [AwaitInsert (data job_ch_1)]\<rparr>
   \<and> tick (tick \<lparr>queue = [job_ch_1, job_ch_2], store = empty_store, tasks = []\<rparr>)
        = \<lparr>queue = [], store = empty_store,
           tasks = [AwaitInsert (data job_ch_1), AwaitFallback (data job_ch_2)]\<rparr>"
  using C9_one_dequeue_per_tick [of "\<lparr>queue = [job_ch_1, job_ch_2], store = empty_store, tasks = []\<rparr>" job_ch_1 job_ch_2 "[]" empty_store "[]"]
  by (simp add: processJob_def job_ch_1_def job_ch_2_def falsy_def tick_def dequeue_def)

section \<open>The immutable fields of a charge\<close>

lemma settle_invariant:
  assumes "I t s"
    and step: "\<And>t s. I t s \<Longrightarrow> \<not> settled t \<Longrightarrow> I (fst (resume t s)) (snd (resume t s))"
  shows "\<forall>(t', s') \<in> set (settle t s). I t' s'"
  using assms(1)
proof (induction t s rule: settle.induct)
  case (1 t s)
  show ?case
  proof (cases "settled t")
    case True
    then show ?thesis using "1.prems" by (simp add: settle_done)
  next
    case False
    obtain t' s' where r: "resume t s = (t', s')" by (cases "resume t s")
    have "I t' s'" using step [OF "1.prems" False] r by simp
    then have "\<forall>(a, b) \<in> set (settle t' s'). I a b"
      using "1.IH" [OF False r [symmetric]] by simp
    then show ?thesis using "1.prems" settle_step [OF False r] by simp
  qed
qed

lemma rows_kept_refl: "rows_kept d d"
  by (simp add: rows_kept_def)

lemma kept_trans:
  assumes ab: "map h (take (length a) b) = map h a" and bc: "map h (take (length b) c) = map h b"
  shows "map h (take (length a) c) = map h a"
proof -
  have la: "length a \<le> length b"
    using ab by (metis length_map length_take min.cobounded1 min.commute)
  have "map h (take (length a) c) = take (length a) (map h (take (length b) c))"
    using la by (simp add: take_map min_def)
  also have "\<dots> = take (length a) (map h b)"
    using bc by simp
  also have "\<dots> = map h a"
    using ab by (simp add: take_map)
  finally show ?thesis .
qed

lemma rows_kept_trans: "rows_kept a b \<Longrightarrow> rows_kept b c \<Longrightarrow> rows_kept a c"
  unfolding rows_kept_def
  using kept_trans [of immutable_fields "charges a" "charges b" "charges c"]
    kept_trans [of unchanging "charges a" "charges b" "charges c"]
  by blast

lemma rows_kept_same: "charges d' = charges d \<Longrightarrow> rows_kept d d'"
  by (simp add: rows_kept_def)

lemma rows_kept_append: "charges d' = charges d @ rs \<Longrightarrow> rows_kept d d'"
  by (simp add: rows_kept_def)

lemma rows_kept_map:
  "charges d' = map f (charges d) \<Longrightarrow>
   (\<And>r. immutable_fields (f r) = immutable_fields r \<and> unchanging (f r) = unchanging r) \<Longrightarrow>
   rows_kept d d'"
  by (simp add: rows_kept_def)

lemma rows_kept_insert: "rows_kept d (snd (insert_charge r d))"
  using insert_charge_charges [of r d] by (auto intro: rows_kept_same rows_kept_append)

lemma rows_kept_update_by_id: "rows_kept d (snd (update_status_by_id st i d))"
  using update_status_by_id_charges [of st i d]
proof
  assume "charges (snd (update_status_by_id st i d)) = charges d"
  then show ?thesis by (rule rows_kept_same)
next
  assume "charges (snd (update_status_by_id st i d)) =
       map (\<lambda>r. if id' r = i then r\<lparr>status := st\<rparr> else r) (charges d)"
  then show ?thesis by (rule rows_kept_map) (simp add: immutable_fields_def unchanging_def)
qed

lemma rows_kept_resume: "rows_kept s (snd (resume t s))"
proof (cases t)
  case (AwaitInsert d)
  then show ?thesis
    using rows_kept_insert [of s "charge_row d ''pending''"] by (auto split: prod.splits sum.splits)
next
  case (AwaitUpdate d)
  then show ?thesis
    using rows_kept_update_by_id [of s "''succeeded''" "id' d"] by (auto split: prod.splits sum.splits)
next
  case (AwaitFallback d)
  then show ?thesis
    using rows_kept_insert [of s "charge_row d ''failed''"] by (auto split: prod.splits sum.splits)
qed (simp_all add: rows_kept_refl)

lemma rows_kept_settle: "\<forall>(t', s') \<in> set (settle t s). rows_kept s s'"
proof (rule settle_invariant [where I = "\<lambda>t' s'. rows_kept s s'"])
  show "rows_kept s s" by (rule rows_kept_refl)
next
  fix t' s' assume "rows_kept s s'"
  then show "rows_kept s (snd (resume t' s'))"
    using rows_kept_resume [of s' t'] by (rule rows_kept_trans)
qed

lemma select_charge_charges [simp]: "charges (snd (select_charge i m d)) = charges d"
  by (cases d rule: connect_cases) (simp_all add: select_charge_def)

lemma select_status_charges [simp]: "charges (snd (select_status i m d)) = charges d"
  by (cases d rule: connect_cases) (simp_all add: select_status_def)

lemma update_metadata_charges:
  "charges (snd (update_metadata md i m d)) = charges d
   \<or> charges (snd (update_metadata md i m d)) =
       map (\<lambda>r. if id' r = i \<and> merchant_id r = m then r\<lparr>metadata := Some md\<rparr> else r) (charges d)"
  by (cases d rule: connect_cases) (simp_all add: update_metadata_def Let_def)

lemma update_status_charges:
  "charges (snd (update_status st i m d)) = charges d
   \<or> charges (snd (update_status st i m d)) =
       map (\<lambda>r. if id' r = i \<and> merchant_id r = m then r\<lparr>status := st\<rparr> else r) (charges d)"
  by (cases d rule: connect_cases) (simp_all add: update_status_def Let_def)

lemma rows_kept_update_metadata: "rows_kept d (snd (update_metadata md i m d))"
  using update_metadata_charges [of md i m d]
proof
  assume "charges (snd (update_metadata md i m d)) = charges d"
  then show ?thesis by (rule rows_kept_same)
next
  assume "charges (snd (update_metadata md i m d)) =
       map (\<lambda>r. if id' r = i \<and> merchant_id r = m then r\<lparr>metadata := Some md\<rparr> else r) (charges d)"
  then show ?thesis by (rule rows_kept_map) (simp add: immutable_fields_def unchanging_def)
qed

lemma rows_kept_update_status: "rows_kept d (snd (update_status st i m d))"
  using update_status_charges [of st i m d]
proof
  assume "charges (snd (update_status st i m d)) = charges d"
  then show ?thesis by (rule rows_kept_same)
next
  assume "charges (snd (update_status st i m d)) =
       map (\<lambda>r. if id' r = i \<and> merchant_id r = m then r\<lparr>status := st\<rparr> else r) (charges d)"
  then show ?thesis by (rule rows_kept_map) (simp add: immutable_fields_def unchanging_def)
qed

lemma get_charge_store: "snd (get_charge i m d) = snd (select_charge i m d)"
  by (simp add: get_charge_def split: prod.splits sum.splits list.splits)

lemma post_metadata_store:
  "snd (post_metadata i m md d) = d
   \<or> snd (post_metadata i m md d) = snd (update_metadata (the md) i m d)"
  by (auto simp: post_metadata_def split: option.splits prod.splits sum.splits list.splits)

lemma capture_store:
  "snd (capture i m d) = snd (select_status i m d)
   \<or> snd (capture i m d) = snd (update_status ''captured'' i m (snd (select_status i m d)))"
  by (auto simp: capture_def split: prod.splits sum.splits list.splits)

lemma rows_kept_capture: "rows_kept d (snd (capture i m d))"
proof -
  have 1: "rows_kept d (snd (select_status i m d))"
    by (simp add: rows_kept_same)
  have 2: "rows_kept (snd (select_status i m d)) (snd (update_status ''captured'' i m (snd (select_status i m d))))"
    by (rule rows_kept_update_status)
  show ?thesis
    using capture_store [of i m d] 1 rows_kept_trans [OF 1 2] by auto
qed

lemma connect_view:
  "outages d = outages d2 \<Longrightarrow>
   fst (connect d) = fst (connect d2) \<and> outages (snd (connect d)) = outages (snd (connect d2))"
  by (cases "outages d2") (simp_all add: connect_def)

lemma select_charges_charges [simp]: "charges (snd (select_charges m l off d)) = charges d"
  by (cases d rule: connect_cases) (simp_all add: select_charges_def)

lemma count_charges_charges [simp]: "charges (snd (count_charges m d)) = charges d"
  by (cases d rule: connect_cases) (simp_all add: count_charges_def)

lemma select_charges_like_charges [simp]: "charges (snd (select_charges_like m p l off d)) = charges d"
  by (cases d rule: connect_cases) (simp_all add: select_charges_like_def)

lemma count_charges_like_charges [simp]: "charges (snd (count_charges_like m p d)) = charges d"
  by (cases d rule: connect_cases) (simp_all add: count_charges_like_def)

lemma select_customer_charges [simp]: "charges (snd (select_customer cs i m d)) = charges d"
  by (cases d rule: connect_cases) (simp_all add: select_customer_def)

lemma list_charges_store:
  "snd (list_charges ql qo m d) = snd (select_charges m (page_param ql 10) (page_param qo 0) d)
   \<or> snd (list_charges ql qo m d)
       = snd (count_charges m (snd (select_charges m (page_param ql 10) (page_param qo 0) d)))"
  by (auto simp: list_charges_def Let_def split: prod.splits sum.splits)

lemma list_charges_charges [simp]: "charges (snd (list_charges ql qo m d)) = charges d"
  using list_charges_store [of ql qo m d] by auto

lemma customer_charges_store:
  "snd (customer_charges cs i ql qo m d) = snd (select_customer cs i m d)
   \<or> snd (customer_charges cs i ql qo m d)
       = snd (select_charges_like m (containing i) (page_param ql 10) (page_param qo 0)
               (snd (select_customer cs i m d)))
   \<or> snd (customer_charges cs i ql qo m d)
       = snd (count_charges_like m (containing i)
               (snd (select_charges_like m (containing i) (page_param ql 10) (page_param qo 0)
                      (snd (select_customer cs i m d)))))"
proof -
  let ?pat = "containing i"
  let ?l = "page_param ql 10" and ?o = "page_param qo 0"
  obtain u0 d0 where a: "select_customer cs i m d = (u0, d0)" by (cases "select_customer cs i m d")
  obtain u1 d1 where b: "select_charges_like m ?pat ?l ?o d0 = (u1, d1)"
    by (cases "select_charges_like m ?pat ?l ?o d0")
  obtain u2 d2 where c: "count_charges_like m ?pat d1 = (u2, d2)"
    by (cases "count_charges_like m ?pat d1")
  show ?thesis
  proof (cases u0)
    case (Inl e)
    then show ?thesis by (simp add: customer_charges_def Let_def a)
  next
    case (Inr xs)
    show ?thesis
    proof (cases xs)
      case Nil
      with Inr show ?thesis by (simp add: customer_charges_def Let_def a)
    next
      case (Cons x xs')
      show ?thesis
      proof (cases u1)
        case (Inl e)
        with Inr Cons show ?thesis by (simp add: customer_charges_def Let_def a b)
      next
        case Inr1: (Inr rs)
        with Inr Cons show ?thesis by (cases u2) (simp_all add: customer_charges_def Let_def a b c)
      qed
    qed
  qed
qed

lemma customer_charges_charges [simp]: "charges (snd (customer_charges cs i ql qo m d)) = charges d"
  using customer_charges_store [of cs i ql qo m d] by auto


lemma rows_kept_advance: "rows_kept (store sys) (store (advance k sys))"
  using rows_kept_resume [of "store sys" "tasks sys ! k"]
  by (auto simp: advance_def rows_kept_refl split: prod.splits)

lemma rows_kept_post_metadata: "rows_kept d (snd (post_metadata i m md d))"
  using post_metadata_store [of i m md d] rows_kept_update_metadata [of d "the md" i m]
  by (auto simp: rows_kept_refl)

lemma rows_kept_step: "rows_kept (store sys) (store (step e sys))"
proof (cases e)
  case Tick
  then show ?thesis by (simp add: rows_kept_same tick_def split: prod.splits option.splits)
next
  case (Advance k)
  then show ?thesis by (simp add: rows_kept_advance)
next
  case (PostCharge uuid m b)
  then show ?thesis by (simp add: rows_kept_same post_charge_def Let_def split: option.splits)
next
  case (GetCharge i m)
  then show ?thesis by (simp add: rows_kept_same get_charge_store)
next
  case (PostMetadata i m md)
  then show ?thesis by (simp add: rows_kept_post_metadata)
next
  case (Capture i m)
  then show ?thesis by (simp add: rows_kept_capture)
qed (simp_all add: rows_kept_same)

lemma rows_kept_run: "rows_kept (store sys) (store (run es sys))"
proof (induction es arbitrary: sys)
  case Nil
  show ?case by (simp add: rows_kept_refl)
next
  case (Cons e es)
  show ?case
    using rows_kept_step [of sys e] Cons.IH [of "step e sys"] by (auto intro: rows_kept_trans)
qed

lemma rows_kept_nth:
  assumes "rows_kept d d'" and "n < length (charges d)"
  shows "id' (charges d' ! n) = id' (charges d ! n)
    \<and> merchant_id (charges d' ! n) = merchant_id (charges d ! n)
    \<and> amount (charges d' ! n) = amount (charges d ! n)
    \<and> currency (charges d' ! n) = currency (charges d ! n)
    \<and> description (charges d' ! n) = description (charges d ! n)"
proof -
  let ?xs = "take (length (charges d)) (charges d')"
  have eq: "map unchanging ?xs = map unchanging (charges d)"
    using assms(1) by (simp add: rows_kept_def)
  then have len: "length ?xs = length (charges d)"
    by (metis length_map)
  then have n': "n < length ?xs" using assms(2) by simp
  have "unchanging (?xs ! n) = unchanging (charges d ! n)"
    using eq n' assms(2) by (metis nth_map)
  moreover have "?xs ! n = charges d' ! n"
    using assms(2) by simp
  ultimately have "unchanging (charges d' ! n) = unchanging (charges d ! n)" by simp
  then have "id' (unchanging (charges d' ! n)) = id' (unchanging (charges d ! n))"
    and "merchant_id (unchanging (charges d' ! n)) = merchant_id (unchanging (charges d ! n))"
    and "amount (unchanging (charges d' ! n)) = amount (unchanging (charges d ! n))"
    and "currency (unchanging (charges d' ! n)) = currency (unchanging (charges d ! n))"
    and "description (unchanging (charges d' ! n)) = description (unchanging (charges d ! n))"
    by simp_all
  then show ?thesis by (simp add: unchanging_def)
qed

text \<open>
  C7. Whatever the store holds, every operation leaves every row in its place with the
  same id, merchant id, amount and currency, and changes nothing in it but its status and
  its metadata (so the description stays too): each resumption of a settlement (the
  finalising update among them) and so every state of a whole settlement, each step of the
  event loop, a tick, the creation of a charge, the retrieval of a charge, the two
  listings, the update of its metadata, its capture, and so every event and every sequence
  of events of the running process. Rows are only appended. The last conjunct spells out
  what \<open>rows_kept\<close> says of each row.
\<close>

theorem C7_immutable_fields_kept:
  "rows_kept s (snd (resume t s))
   \<and> (\<forall>(t', s') \<in> set (settle t s). rows_kept s s')
   \<and> rows_kept (store sys) (store (advance k sys))
   \<and> store (tick sys) = store sys
   \<and> store (snd (post_charge uuid m b sys)) = store sys
   \<and> rows_kept d (snd (get_charge i m d))
   \<and> rows_kept d (snd (list_charges ql qo m d))
   \<and> rows_kept d (snd (customer_charges cs i ql qo m d))
   \<and> rows_kept d (snd (post_metadata i m md d))
   \<and> rows_kept d (snd (capture i m d))
   \<and> rows_kept (store sys) (store (step e sys))
   \<and> rows_kept (store sys) (store (run es sys))
   \<and> (rows_kept d d' \<longrightarrow>
        (\<forall>n < length (charges d).
           id' (charges d' ! n) = id' (charges d ! n)
           \<and> merchant_id (charges d' ! n) = merchant_id (charges d ! n)
           \<and> amount (charges d' ! n) = amount (charges d ! n)
           \<and> currency (charges d' ! n) = currency (charges d ! n)
           \<and> description (charges d' ! n) = description (charges d ! n)))"
proof -
  have tk: "store (tick sys) = store sys"
    by (simp add: tick_def split: prod.splits option.splits)
  have pc: "store (snd (post_charge uuid m b sys)) = store sys"
    by (simp add: post_charge_def Let_def split: option.splits)
  have gc: "rows_kept d (snd (get_charge i m d))"
    by (simp add: get_charge_store rows_kept_same)
  have lc: "rows_kept d (snd (list_charges ql qo m d))"
    by (simp add: rows_kept_same)
  have cc: "rows_kept d (snd (customer_charges cs i ql qo m d))"
    by (simp add: rows_kept_same)
  have nth: "rows_kept d d' \<longrightarrow>
        (\<forall>n < length (charges d).
           id' (charges d' ! n) = id' (charges d ! n)
           \<and> merchant_id (charges d' ! n) = merchant_id (charges d ! n)
           \<and> amount (charges d' ! n) = amount (charges d ! n)
           \<and> currency (charges d' ! n) = currency (charges d ! n)
           \<and> description (charges d' ! n) = description (charges d ! n))"
    using rows_kept_nth [of d d'] by blast
  show ?thesis
    by (intro conjI)
       (rule rows_kept_resume, rule rows_kept_settle, rule rows_kept_advance, rule tk, rule pc,
        rule gc, rule lc, rule cc, rule rows_kept_post_metadata, rule rows_kept_capture,
        rule rows_kept_step, rule rows_kept_run, rule nth)
qed

text \<open>The finalising update and the capture change the status of a row that has a
  description, the update of the metadata changes its metadata; nothing else changes.\<close>

theorem C7_immutable_fields_kept_witness:
  "rows_kept (empty_store\<lparr>charges := [charge_row (data job_ch_1) ''pending'']\<rparr>)
     (snd (resume (AwaitUpdate (data job_ch_1))
            (empty_store\<lparr>charges := [charge_row (data job_ch_1) ''pending'']\<rparr>)))
   \<and> charges (snd (resume (AwaitUpdate (data job_ch_1))
            (empty_store\<lparr>charges := [charge_row (data job_ch_1) ''pending'']\<rparr>)))
       = [charge_row (data job_ch_1) ''succeeded'']
   \<and> immutable_fields (charge_row (data job_ch_1) ''succeeded'') = (''ch_1'', ''m_1'', 500, ''usd'')
   \<and> immutable_fields (charge_row (data job_ch_1) ''pending'') = (''ch_1'', ''m_1'', 500, ''usd'')
   \<and> rows_kept (empty_store\<lparr>charges := [described_charge]\<rparr>)
        (snd (capture ''ch_8'' ''m_1'' (empty_store\<lparr>charges := [described_charge]\<rparr>)))
   \<and> charges (snd (capture ''ch_8'' ''m_1'' (empty_store\<lparr>charges := [described_charge]\<rparr>)))
       = [described_charge\<lparr>status := ''captured''\<rparr>]
   \<and> rows_kept (empty_store\<lparr>charges := [described_charge]\<rparr>)
        (snd (post_metadata ''ch_8'' ''m_1'' (Some (JObject [(''order'', JNumber 7)]))
               (empty_store\<lparr>charges := [described_charge]\<rparr>)))
   \<and> charges (snd (post_metadata ''ch_8'' ''m_1'' (Some (JObject [(''order'', JNumber 7)]))
               (empty_store\<lparr>charges := [described_charge]\<rparr>)))
       = [described_charge\<lparr>metadata := Some (JObject [(''order'', JNumber 7)])\<rparr>]
   \<and> (0::nat) < length (charges (empty_store\<lparr>charges := [described_charge]\<rparr>))
   \<and> description (charges (snd (capture ''ch_8'' ''m_1'' (empty_store\<lparr>charges := [described_charge]\<rparr>))) ! 0)
       = Some ''first order''"
  using C7_immutable_fields_kept [where s = "empty_store\<lparr>charges := [charge_row (data job_ch_1) ''pending'']\<rparr>"
      and t = "AwaitUpdate (data job_ch_1)"
      and d = "empty_store\<lparr>charges := [described_charge]\<rparr>"
      and d' = "snd (capture ''ch_8'' ''m_1'' (empty_store\<lparr>charges := [described_charge]\<rparr>))"
      and i = "''ch_8''" and m = "''m_1''" and md = "Some (JObject [(''order'', JNumber 7)])"
      and k = 0 and uuid = "''u''" and ql = None and qo = None and cs = "[]" and e = Tick and es = "[]"
      and b = "\<lparr>body_amount = None, body_currency = None, body_source = None, body_description = None\<rparr>"
      and sys = "\<lparr>queue = [], store = empty_store, tasks = []\<rparr>"]
  by (simp add: empty_store_def job_ch_1_def described_charge_def charge_row_def
      update_status_by_id_def connect_def immutable_fields_def unchanging_def capture_def
      select_status_def update_status_def post_metadata_def update_metadata_def rows_kept_def
      Let_def)

section \<open>Accepted before persisted\<close>









section \<open>The scope of reads and writes\<close>

lemma varchar_cases: "varchar n s = Some s' \<Longrightarrow> s' = s \<or> n < length s"
  by (auto simp: varchar_def split: if_splits)

lemma check_row_stored:
  "check_row d r = Inr r' \<Longrightarrow>
   merchant_id r' = merchant_id r \<and> varchar 255 (id' r) = Some (id' r')"
  by (auto simp: check_row_def split: option.splits if_splits)

lemma insert_charge_Inl: "insert_charge r d = (Inl e, d') \<Longrightarrow> charges d' = charges d"
  by (cases d rule: connect_cases) (auto simp: insert_charge_def split: sum.splits)

lemma insert_charge_Inr:
  "insert_charge r d = (Inr u, d') \<Longrightarrow> \<exists>r'. check_row d r = Inr r' \<and> charges d' = charges d @ [r']"
  by (cases d rule: connect_cases) (auto simp: insert_charge_def split: sum.splits)

lemma outside_update:
  "map (\<lambda>r. if id' r = i \<and> merchant_id r = m then None else Some r)
     (map (\<lambda>r. if id' r = i \<and> merchant_id r = m then f r else r) rs)
   = map (\<lambda>r. if id' r = i \<and> merchant_id r = m then None else Some r) rs"
  if "\<And>r. id' (f r) = id' r \<and> merchant_id (f r) = merchant_id r"
  using that by (induction rs) auto

lemma outside_update_metadata: "outside i m (snd (update_metadata md i m d)) = outside i m d"
  using update_metadata_charges [of md i m d]
    outside_update [of "\<lambda>r. r\<lparr>metadata := Some md\<rparr>" i m "charges d"]
  by (auto simp: outside_def)

lemma outside_update_status: "outside i m (snd (update_status st i m d)) = outside i m d"
  using update_status_charges [of st i m d]
    outside_update [of "\<lambda>r. r\<lparr>status := st\<rparr>" i m "charges d"]
  by (auto simp: outside_def)

lemma select_charge_scoped:
  "fst (select_charge i m d) = Inr rs \<Longrightarrow> r \<in> set rs \<Longrightarrow> id' r = i \<and> merchant_id r = m"
  by (cases d rule: connect_cases) (auto simp: select_charge_def)

lemma settle_frame:
  assumes H: "list_all (\<lambda>r. length (id' r) \<le> 255) (charges s)"
  shows "\<forall>(t', s') \<in> set (settle (processJob j) s).
           take (length (charges s)) (charges s') = charges s
           \<and> (\<forall>r \<in> set (drop (length (charges s)) (charges s')).
                 merchant_id r = merchant_id (data j)
                 \<and> varchar 255 (id' (data j)) = Some (id' r))"
proof -
  let ?d = "data j"
  let ?n = "length (charges s)"
  define fresh where "fresh \<longleftrightarrow> id' ?d \<notin> set (map id' (charges s))"
  define F :: "db \<Rightarrow> bool" where "F = (\<lambda>s'. take ?n (charges s') = charges s
           \<and> (\<forall>r \<in> set (drop ?n (charges s')).
                 merchant_id r = merchant_id ?d \<and> varchar 255 (id' ?d) = Some (id' r)))"
  define T :: "task \<Rightarrow> bool" where "T = (\<lambda>t. case t of AwaitInsert d' \<Rightarrow> d' = ?d | AwaitTimeout d' \<Rightarrow> d' = ?d \<and> fresh
                 | AwaitUpdate d' \<Rightarrow> d' = ?d \<and> fresh | AwaitFallback d' \<Rightarrow> d' = ?d
                 | Fulfilled \<Rightarrow> True | Rejected e \<Rightarrow> True)"
  have ins_Inl: "F s''" if F: "F s'" and i: "insert_charge (charge_row ?d st) s' = (Inl e, s'')"
    for s' s'' st e
    using F insert_charge_Inl [OF i] by (simp add: F_def)
  have ins_Inr: "F s'' \<and> fresh" if F: "F s'" and i: "insert_charge (charge_row ?d st) s' = (Inr u, s'')"
    for s' s'' st u
  proof -
    have len: "?n \<le> length (charges s')"
      using F unfolding F_def by (metis length_take min.cobounded1 min.commute)
    obtain r' where r': "check_row s' (charge_row ?d st) = Inr r'" "charges s'' = charges s' @ [r']"
      using insert_charge_Inr [OF i] by blast
    have st: "merchant_id r' = merchant_id ?d" "varchar 255 (id' ?d) = Some (id' r')"
      using check_row_stored [OF r'(1)] by (simp_all add: charge_row_def)
    have "take ?n (charges s'') = charges s"
      using F len r'(2) by (simp add: F_def)
    moreover have "drop ?n (charges s'') = drop ?n (charges s') @ [r']"
      using len r'(2) by simp
    ultimately have 1: "F s''"
      using F st by (simp add: F_def)
    have sub: "set (map id' (charges s)) \<subseteq> set (map id' (charges s'))"
      using F unfolding F_def by (metis set_take_subset image_mono set_map)
    have "id' r' \<notin> set (map id' (charges s))"
      using check_row_fresh [OF r'(1)] sub by blast
    moreover have "id' r' = id' ?d \<or> 255 < length (id' ?d)"
      using st(2) varchar_cases [of 255 "id' ?d" "id' r'"] by simp
    moreover have "\<forall>i \<in> set (map id' (charges s)). length i \<le> 255"
      using H by (auto simp: list_all_iff)
    ultimately have 2: fresh
      unfolding fresh_def by fastforce
    from 1 2 show ?thesis ..
  qed
  have upd: "F s''"
    if F: "F s'" and fr: fresh and u: "update_status_by_id st (id' ?d) s' = (u, s'')" for s' s'' st u
  proof -
    let ?f = "\<lambda>r. if id' r = id' ?d then r\<lparr>status := st\<rparr> else r"
    have "charges s'' = charges s' \<or> charges s'' = map ?f (charges s')"
      using update_status_by_id_charges [of st "id' ?d" s'] u by simp
    moreover have "F s''" if "charges s'' = charges s'"
      using that F by (simp add: F_def)
    moreover have "F s''" if c: "charges s'' = map ?f (charges s')"
    proof -
      have "take ?n (charges s'') = map ?f (charges s)"
        using c F by (simp add: take_map F_def)
      also have "\<dots> = charges s"
        using fr unfolding fresh_def by (rule update_fresh)
      finally have 1: "take ?n (charges s'') = charges s" .
      have "drop ?n (charges s'') = map ?f (drop ?n (charges s'))"
        using c by (simp add: drop_map)
      moreover have "\<forall>r \<in> set (drop ?n (charges s')).
                 merchant_id r = merchant_id ?d \<and> varchar 255 (id' ?d) = Some (id' r)"
        using F by (simp add: F_def)
      ultimately have 2: "\<forall>r \<in> set (drop ?n (charges s'')).
                 merchant_id r = merchant_id ?d \<and> varchar 255 (id' ?d) = Some (id' r)"
        by auto
      from 1 2 show ?thesis by (simp add: F_def)
    qed
    ultimately show ?thesis by blast
  qed
  have step: "F (snd (resume t s')) \<and> T (fst (resume t s'))" if I: "F s' \<and> T t" for t s'
  proof (cases t)
    case (AwaitInsert d')
    then have d': "d' = ?d" using I by (simp add: T_def)
    obtain u s'' where i: "insert_charge (charge_row ?d ''pending'') s' = (u, s'')"
      by (cases "insert_charge (charge_row ?d ''pending'') s'")
    show ?thesis
    proof (cases u)
      case (Inl e)
      with i ins_Inl [of s' "''pending''" e s''] I show ?thesis
        by (simp add: AwaitInsert d' T_def)
    next
      case (Inr x)
      with i ins_Inr [of s' "''pending''" x s''] I show ?thesis
        by (simp add: AwaitInsert d' T_def)
    qed
  next
    case (AwaitTimeout d')
    with I show ?thesis by (simp add: T_def)
  next
    case (AwaitUpdate d')
    then have d': "d' = ?d" and fr: fresh using I by (simp_all add: T_def)
    obtain u s'' where i: "update_status_by_id ''succeeded'' (id' ?d) s' = (u, s'')"
      by (cases "update_status_by_id ''succeeded'' (id' ?d) s'")
    have "F s''" using I fr i upd by blast
    then show ?thesis
      using i by (cases u) (simp_all add: AwaitUpdate d' T_def)
  next
    case (AwaitFallback d')
    then have d': "d' = ?d" using I by (simp add: T_def)
    obtain u s'' where i: "insert_charge (charge_row ?d ''failed'') s' = (u, s'')"
      by (cases "insert_charge (charge_row ?d ''failed'') s'")
    show ?thesis
    proof (cases u)
      case (Inl e)
      with i ins_Inl [of s' "''failed''" e s''] I show ?thesis
        by (simp add: AwaitFallback d' T_def)
    next
      case (Inr x)
      with i ins_Inr [of s' "''failed''" x s''] I show ?thesis
        by (simp add: AwaitFallback d' T_def)
    qed
  next
    case Fulfilled
    with I show ?thesis by simp
  next
    case (Rejected e)
    with I show ?thesis by simp
  qed
  have init: "F s \<and> T (processJob j)"
    by (simp add: processJob_def Let_def F_def T_def)
  have "\<forall>(t', s') \<in> set (settle (processJob j) s). F s' \<and> T t'"
    by (rule settle_invariant [where I = "\<lambda>t s'. F s' \<and> T t"]) (use init step in blast)+
  then show ?thesis
    unfolding F_def by blast
qed

lemma select_status_depends:
  "filter (\<lambda>r. id' r = i \<and> merchant_id r = m) (charges d)
     = filter (\<lambda>r. id' r = i \<and> merchant_id r = m) (charges d2)
   \<Longrightarrow> outages d = outages d2 \<Longrightarrow> fst (select_status i m d) = fst (select_status i m d2)"
  by (cases "outages d2") (auto simp: select_status_def connect_def split: bool.splits)

lemma varchar_length: "varchar n s = Some s' \<Longrightarrow> length s' \<le> n"
  by (auto simp: varchar_def split: if_splits)

lemma check_row_id_length: "check_row d r = Inr r' \<Longrightarrow> length (id' r') \<le> 255"
  using check_row_stored [of d r r'] varchar_length [of 255 "id' r" "id' r'"] by simp

lemma table_step_insert: "table_step d (snd (insert_charge r d))"
proof -
  obtain u d' where i: "insert_charge r d = (u, d')" by (cases "insert_charge r d")
  show ?thesis
  proof (cases u)
    case (Inl e)
    with i show ?thesis by (simp add: table_step_def insert_charge_Inl)
  next
    case (Inr x)
    with i obtain r' where "check_row d r = Inr r'" "charges d' = charges d @ [r']"
      using insert_charge_Inr by blast
    then show ?thesis
      using i check_row_fresh [of d r r'] check_row_id_length [of d r r'] by (auto simp: table_step_def)
  qed
qed

lemma table_step_update_by_id: "table_step d (snd (update_status_by_id st i d))"
proof -
  let ?f = "\<lambda>r. if id' r = i then r\<lparr>status := st\<rparr> else r"
  have "\<forall>r. id' (?f r) = id' r \<and> merchant_id (?f r) = merchant_id r" by simp
  then show ?thesis
    using update_status_by_id_charges [of st i d] unfolding table_step_def by blast
qed

lemma table_step_resume: "table_step s (snd (resume t s))"
proof (cases t)
  case (AwaitInsert d)
  then show ?thesis
    using table_step_insert [of s "charge_row d ''pending''"] by (auto split: prod.splits sum.splits)
next
  case (AwaitUpdate d)
  then show ?thesis
    using table_step_update_by_id [of s "''succeeded''" "id' d"] by (auto split: prod.splits sum.splits)
next
  case (AwaitFallback d)
  then show ?thesis
    using table_step_insert [of s "charge_row d ''failed''"] by (auto split: prod.splits sum.splits)
qed (simp_all add: table_step_def)

lemma table_step_distinct:
  "table_step d d' \<Longrightarrow> distinct (map id' (charges d)) \<Longrightarrow> distinct (map id' (charges d'))"
  unfolding table_step_def
proof (elim disjE exE conjE)
  fix f assume "charges d' = map f (charges d)"
    and "\<forall>r. id' (f r) = id' r \<and> merchant_id (f r) = merchant_id r"
  then have "map id' (charges d') = map id' (charges d)" by simp
  moreover assume "distinct (map id' (charges d))"
  ultimately show ?thesis by simp
qed auto

lemma table_step_lengths:
  "table_step d d' \<Longrightarrow> list_all (\<lambda>r. length (id' r) \<le> 255) (charges d)
   \<Longrightarrow> list_all (\<lambda>r. length (id' r) \<le> 255) (charges d')"
  unfolding table_step_def by (auto simp: list_all_iff)

lemma table_step_has_row: "table_step d d' \<Longrightarrow> has_row d t \<Longrightarrow> has_row d' t"
  unfolding table_step_def has_row_def
proof (elim disjE exE conjE)
  fix f assume c: "charges d' = map f (charges d)"
    and f: "\<forall>r. id' (f r) = id' r \<and> merchant_id (f r) = merchant_id r"
    and h: "case past_insert t of None \<Rightarrow> True
      | Some jd \<Rightarrow> list_ex (\<lambda>r. varchar 255 (id' jd) = Some (id' r) \<and> merchant_id r = merchant_id jd) (charges d)"
  show "case past_insert t of None \<Rightarrow> True
      | Some jd \<Rightarrow> list_ex (\<lambda>r. varchar 255 (id' jd) = Some (id' r) \<and> merchant_id r = merchant_id jd) (charges d')"
  proof (cases "past_insert t")
    case None
    then show ?thesis by simp
  next
    case (Some jd)
    with h obtain r where "r \<in> set (charges d)" "varchar 255 (id' jd) = Some (id' r)"
      "merchant_id r = merchant_id jd"
      by (auto simp: list_ex_iff)
    then have "f r \<in> set (charges d')" "varchar 255 (id' jd) = Some (id' (f r))"
      "merchant_id (f r) = merchant_id jd"
      using c f by auto
    then show ?thesis using Some unfolding list_ex_iff by (auto intro: bexI [of _ "f r"])
  qed
qed (auto simp: list_ex_iff split: option.splits)

lemma has_row_resume: "has_row s t \<Longrightarrow> has_row (snd (resume t s)) (fst (resume t s))"
proof (cases t)
  case (AwaitInsert d)
  obtain u s' where i: "insert_charge (charge_row d ''pending'') s = (u, s')"
    by (cases "insert_charge (charge_row d ''pending'') s")
  show ?thesis
  proof (cases u)
    case (Inl e)
    with i AwaitInsert show ?thesis by (simp add: has_row_def)
  next
    case (Inr x)
    with i obtain r' where r': "check_row s (charge_row d ''pending'') = Inr r'"
      "charges s' = charges s @ [r']"
      using insert_charge_Inr by blast
    have "varchar 255 (id' d) = Some (id' r') \<and> merchant_id r' = merchant_id d"
      using check_row_stored [OF r'(1)] by (simp add: charge_row_def)
    with i Inr AwaitInsert r'(2) show ?thesis by (simp add: has_row_def)
  qed
next
  case (AwaitTimeout d)
  assume "has_row s t"
  with AwaitTimeout show ?thesis by (simp add: has_row_def)
next
  case (AwaitUpdate d)
  then show ?thesis by (auto simp: has_row_def split: prod.splits sum.splits)
next
  case (AwaitFallback d)
  then show ?thesis by (auto simp: has_row_def split: prod.splits sum.splits)
qed (simp_all add: has_row_def)

lemma consistent_table_step:
  assumes "consistent sys" and "table_step (store sys) s'" and "list_all (has_row s') ts"
  shows "consistent (sys\<lparr>store := s', tasks := ts\<rparr>)"
  using assms table_step_distinct [of "store sys" s'] table_step_lengths [of "store sys" s']
  by (simp add: consistent_def)

lemma consistent_advance: "consistent sys \<Longrightarrow> consistent (advance k sys)"
proof (cases "k < length (tasks sys)")
  case False
  assume "consistent sys"
  with False show ?thesis by (simp add: advance_def)
next
  case True
  assume c: "consistent sys"
  let ?t = "tasks sys ! k"
  obtain t' s' where r: "resume ?t (store sys) = (t', s')" by (cases "resume ?t (store sys)")
  have ts: "table_step (store sys) s'"
    using table_step_resume [of "store sys" ?t] r by simp
  have old: "list_all (has_row (store sys)) (tasks sys)"
    using c by (simp add: consistent_def)
  then have "has_row (store sys) ?t"
    using True by (simp add: list_all_length)
  then have new: "has_row s' t'"
    using has_row_resume [of "store sys" ?t] r by simp
  have "\<forall>t \<in> set (tasks sys). has_row s' t"
    using old ts table_step_has_row by (auto simp: list_all_iff)
  then have "list_all (has_row s') ((tasks sys)[k := t'])"
    using new set_update_subset_insert [of "tasks sys" k t'] by (auto simp: list_all_iff)
  then have "consistent (sys\<lparr>store := s', tasks := (tasks sys)[k := t']\<rparr>)"
    using c ts by (rule consistent_table_step [rotated 2])
  then show ?thesis
    using True r by (simp add: advance_def)
qed

lemma consistent_tick: "consistent sys \<Longrightarrow> consistent (tick sys)"
  by (cases "queue sys")
     (auto simp: consistent_def tick_def dequeue_def has_row_def processJob_def Let_def)

lemma consistent_post_charge: "consistent sys \<Longrightarrow> consistent (snd (post_charge uuid m b sys))"
  by (auto simp: consistent_def post_charge_def Let_def split: option.splits)

lemma same_id_same_row:
  "distinct (map id' rs) \<Longrightarrow> r \<in> set rs \<Longrightarrow> r0 \<in> set rs \<Longrightarrow> id' r = id' r0 \<Longrightarrow> r = r0"
  by (meson distinct_map inj_on_def)

lemma advance_scoped:
  assumes c: "consistent sys" and k: "k < length (tasks sys)"
    and d: "task_data (tasks sys ! k) = Some jd"
  shows "take (length (charges (store sys))) (outside (id' jd) (merchant_id jd) (store (advance k sys)))
           = outside (id' jd) (merchant_id jd) (store sys)"
proof -
  let ?t = "tasks sys ! k"
  let ?s = "store sys"
  let ?g = "\<lambda>r. if id' r = id' jd \<and> merchant_id r = merchant_id jd then None else Some r"
  have st: "store (advance k sys) = snd (resume ?t ?s)"
    using k by (simp add: advance_def split: prod.splits)
  show ?thesis
  proof (cases ?t)
    case (AwaitInsert d')
    then show ?thesis
      using insert_charge_charges [of "charge_row d' ''pending''" ?s]
      by (auto simp: st outside_def split: prod.splits sum.splits)
  next
    case (AwaitTimeout d')
    then show ?thesis by (simp add: st outside_def)
  next
    case (AwaitFallback d')
    then show ?thesis
      using insert_charge_charges [of "charge_row d' ''failed''" ?s]
      by (auto simp: st outside_def split: prod.splits sum.splits)
  next
    case (AwaitUpdate d')
    with d have d': "d' = jd" by simp
    let ?f = "\<lambda>r. if id' r = id' jd then r\<lparr>status := ''succeeded''\<rparr> else r"
    have "has_row ?s ?t"
      using c k by (simp add: consistent_def list_all_length)
    then obtain r0 where r0: "r0 \<in> set (charges ?s)" "varchar 255 (id' jd) = Some (id' r0)"
      "merchant_id r0 = merchant_id jd"
      by (auto simp: has_row_def AwaitUpdate d' list_ex_iff)
    have own: "merchant_id r = merchant_id jd" if "r \<in> set (charges ?s)" and "id' r = id' jd" for r
    proof -
      have "length (id' r) \<le> 255"
        using c that(1) by (simp add: consistent_def list_all_iff)
      then have "varchar 255 (id' jd) = Some (id' jd)"
        using that(2) by (simp add: varchar_def)
      then have "id' r = id' r0"
        using r0(2) that(2) by simp
      moreover have "distinct (map id' (charges ?s))"
        using c by (simp add: consistent_def)
      ultimately have "r = r0"
        using that(1) r0(1) by (rule same_id_same_row [rotated 3])
      then show ?thesis using r0(3) by simp
    qed
    have "map ?g (map ?f (charges ?s)) = map ?g (charges ?s)"
      using own by (auto simp: map_eq_conv)
    moreover have "snd (resume ?t ?s) = snd (update_status_by_id ''succeeded'' (id' jd) ?s)"
      by (simp add: AwaitUpdate d' split: prod.splits sum.splits)
    ultimately show ?thesis
      using update_status_by_id_charges [of "''succeeded''" "id' jd" ?s]
      by (auto simp: st outside_def)
  next
    case Fulfilled
    with d show ?thesis by simp
  next
    case (Rejected e)
    with d show ?thesis by simp
  qed
qed

lemma table_step_same: "charges d' = charges d \<Longrightarrow> table_step d d'"
  by (simp add: table_step_def)

lemma table_step_update_metadata: "table_step d (snd (update_metadata md i m d))"
proof -
  let ?f = "\<lambda>r. if id' r = i \<and> merchant_id r = m then r\<lparr>metadata := Some md\<rparr> else r"
  have "\<forall>r. id' (?f r) = id' r \<and> merchant_id (?f r) = merchant_id r" by simp
  then show ?thesis
    using update_metadata_charges [of md i m d] unfolding table_step_def by blast
qed

lemma table_step_update_status: "table_step d (snd (update_status st i m d))"
proof -
  let ?f = "\<lambda>r. if id' r = i \<and> merchant_id r = m then r\<lparr>status := st\<rparr> else r"
  have "\<forall>r. id' (?f r) = id' r \<and> merchant_id (?f r) = merchant_id r" by simp
  then show ?thesis
    using update_status_charges [of st i m d] unfolding table_step_def by blast
qed

lemma consistent_store:
  assumes "consistent sys" and "table_step (store sys) s'"
  shows "consistent (sys\<lparr>store := s'\<rparr>)"
proof -
  have "\<forall>t \<in> set (tasks sys). has_row s' t"
    using assms table_step_has_row by (auto simp: consistent_def list_all_iff)
  then have "list_all (has_row s') (tasks sys)" by (simp add: list_all_iff)
  with assms have "consistent (sys\<lparr>store := s', tasks := tasks sys\<rparr>)"
    by (rule consistent_table_step)
  then show ?thesis by simp
qed

lemma consistent_store2:
  assumes "consistent sys" and "table_step (store sys) s'" and "table_step s' s''"
  shows "consistent (sys\<lparr>store := s''\<rparr>)"
  using consistent_store [OF consistent_store [OF assms(1,2)], of s''] assms(3) by simp

text \<open>\<open>consistent\<close> holds when the process starts on an empty table and is kept by every
  operation of the process and of the charge routes.\<close>

lemma consistent_invariant:
  "consistent \<lparr>queue = q, store = \<lparr>merchants = ms, charges = [], outages = os\<rparr>, tasks = []\<rparr>"
  "consistent sys \<Longrightarrow> consistent (tick sys)"
  "consistent sys \<Longrightarrow> consistent (advance k sys)"
  "consistent sys \<Longrightarrow> consistent (snd (post_charge uuid m b sys))"
  "consistent sys \<Longrightarrow> consistent (sys\<lparr>store := snd (get_charge i m (store sys))\<rparr>)"
  "consistent sys \<Longrightarrow> consistent (sys\<lparr>store := snd (post_metadata i m md (store sys))\<rparr>)"
  "consistent sys \<Longrightarrow> consistent (sys\<lparr>store := snd (capture i m (store sys))\<rparr>)"
proof -
  show "consistent \<lparr>queue = q, store = \<lparr>merchants = ms, charges = [], outages = os\<rparr>, tasks = []\<rparr>"
    by (simp add: consistent_def)
  show "consistent sys \<Longrightarrow> consistent (tick sys)" by (rule consistent_tick)
  show "consistent sys \<Longrightarrow> consistent (advance k sys)" by (rule consistent_advance)
  show "consistent sys \<Longrightarrow> consistent (snd (post_charge uuid m b sys))"
    by (rule consistent_post_charge)
  show "consistent sys \<Longrightarrow> consistent (sys\<lparr>store := snd (get_charge i m (store sys))\<rparr>)"
    by (rule consistent_store) (simp_all add: get_charge_store table_step_same)
  show "consistent sys \<Longrightarrow> consistent (sys\<lparr>store := snd (post_metadata i m md (store sys))\<rparr>)"
    using post_metadata_store [of i m md "store sys"]
      table_step_update_metadata [of "store sys" "the md" i m]
    by (auto intro: consistent_store simp: table_step_same)
  show "consistent sys \<Longrightarrow> consistent (sys\<lparr>store := snd (capture i m (store sys))\<rparr>)"
    using capture_store [of i m "store sys"]
      table_step_update_status [of "snd (select_status i m (store sys))" "''captured''" i m]
    by (auto intro: consistent_store consistent_store2 [of sys "snd (select_status i m (store sys))"]
        simp: table_step_same)
qed


lemma page_subset: "page l off rs = Inr rs' \<Longrightarrow> set rs' \<subseteq> set rs"
proof -
  assume "page l off rs = Inr rs'"
  then have "rs' = take (nat l) (drop (nat off) (rev rs))"
    by (simp add: page_def split: if_splits)
  then show ?thesis
    by (metis in_set_takeD in_set_dropD set_rev subsetI)
qed

lemma select_charges_scoped:
  "fst (select_charges m l off d) = Inr rs \<Longrightarrow> r \<in> set rs \<Longrightarrow> merchant_id r = m"
  by (cases d rule: connect_cases) (auto simp: select_charges_def dest!: page_subset)

lemma select_charges_like_scoped:
  "fst (select_charges_like m p l off d) = Inr rs \<Longrightarrow> r \<in> set rs \<Longrightarrow> merchant_id r = m"
  by (cases d rule: connect_cases) (auto simp: select_charges_like_def dest!: page_subset)

lemma list_charges_scoped:
  assumes "fst (list_charges ql qo m d) = (c, ListObject hm rs)" and "r \<in> set rs"
  shows "merchant_id r = m"
proof -
  let ?l = "page_param ql 10" and ?o = "page_param qo 0"
  obtain u1 d1 where b: "select_charges m ?l ?o d = (u1, d1)" by (cases "select_charges m ?l ?o d")
  obtain u2 d2 where c: "count_charges m d1 = (u2, d2)" by (cases "count_charges m d1")
  have "u1 = Inr rs"
  proof (cases u1)
    case (Inl e)
    with assms(1) show ?thesis by (simp add: list_charges_def Let_def b)
  next
    case (Inr rs1)
    with assms(1) show ?thesis by (cases u2) (simp_all add: list_charges_def Let_def b c)
  qed
  then have "fst (select_charges m ?l ?o d) = Inr rs" by (simp add: b)
  then show ?thesis using assms(2) by (rule select_charges_scoped)
qed

lemma customer_charges_scoped:
  assumes "fst (customer_charges cs i ql qo m d) = (c, ListObject hm rs)" and "r \<in> set rs"
  shows "merchant_id r = m"
proof -
  let ?pat = "containing i"
  let ?l = "page_param ql 10" and ?o = "page_param qo 0"
  obtain u0 d0 where a: "select_customer cs i m d = (u0, d0)" by (cases "select_customer cs i m d")
  obtain u1 d1 where b: "select_charges_like m ?pat ?l ?o d0 = (u1, d1)"
    by (cases "select_charges_like m ?pat ?l ?o d0")
  obtain u2 d2 where c: "count_charges_like m ?pat d1 = (u2, d2)"
    by (cases "count_charges_like m ?pat d1")
  have "u1 = Inr rs"
  proof (cases u0)
    case (Inl e)
    with assms(1) show ?thesis by (simp add: customer_charges_def Let_def a)
  next
    case (Inr xs)
    show ?thesis
    proof (cases xs)
      case Nil
      with Inr assms(1) show ?thesis by (simp add: customer_charges_def Let_def a)
    next
      case (Cons x xs')
      show ?thesis
      proof (cases u1)
        case (Inl e)
        with Inr Cons assms(1) show ?thesis by (simp add: customer_charges_def Let_def a b)
      next
        case Inr1: (Inr rs1)
        with Inr Cons assms(1) show ?thesis
          by (cases u2) (simp_all add: customer_charges_def Let_def a b c)
      qed
    qed
  qed
  then have "fst (select_charges_like m ?pat ?l ?o d0) = Inr rs" by (simp add: b)
  then show ?thesis using assms(2) by (rule select_charges_like_scoped)
qed

lemma get_charge_scoped:
  assumes "fst (get_charge i m d) = (c, Row r)"
  shows "id' r = i \<and> merchant_id r = m"
proof -
  obtain u d' where a: "select_charge i m d = (u, d')" by (cases "select_charge i m d")
  have "\<exists>rs. u = Inr (r # rs)"
  proof (cases u)
    case (Inl e)
    with assms show ?thesis by (simp add: get_charge_def a)
  next
    case (Inr xs)
    with assms show ?thesis by (cases xs) (simp_all add: get_charge_def a)
  qed
  then obtain rs where "fst (select_charge i m d) = Inr (r # rs)" by (auto simp: a)
  then show ?thesis using select_charge_scoped [of i m d "r # rs" r] by simp
qed

lemma update_metadata_scoped:
  "fst (update_metadata md i m d) = Inr rs \<Longrightarrow> r \<in> set rs \<Longrightarrow> id' r = i \<and> merchant_id r = m"
  by (cases d rule: connect_cases) (auto simp: update_metadata_def Let_def)

lemma update_status_scoped:
  "fst (update_status st i m d) = Inr rs \<Longrightarrow> r \<in> set rs \<Longrightarrow> id' r = i \<and> merchant_id r = m"
  by (cases d rule: connect_cases) (auto simp: update_status_def Let_def)

lemma post_metadata_scoped:
  assumes "fst (post_metadata i m md d) = (c, Row r)"
  shows "id' r = i \<and> merchant_id r = m"
proof (cases md)
  case None
  with assms show ?thesis by (simp add: post_metadata_def)
next
  case (Some v)
  obtain u d' where a: "update_metadata v i m d = (u, d')" by (cases "update_metadata v i m d")
  have "\<exists>rs. u = Inr (r # rs)"
  proof (cases u)
    case (Inl e)
    with assms Some show ?thesis by (simp add: post_metadata_def a split: if_splits)
  next
    case (Inr xs)
    with assms Some show ?thesis by (cases xs) (simp_all add: post_metadata_def a split: if_splits)
  qed
  then obtain rs where "fst (update_metadata v i m d) = Inr (r # rs)" by (auto simp: a)
  then show ?thesis using update_metadata_scoped [of v i m d "r # rs" r] by simp
qed

lemma capture_scoped:
  assumes "fst (capture i m d) = (c, Row r)"
  shows "id' r = i \<and> merchant_id r = m"
proof -
  obtain u0 d0 where a: "select_status i m d = (u0, d0)" by (cases "select_status i m d")
  obtain u d' where b: "update_status ''captured'' i m d0 = (u, d')"
    by (cases "update_status ''captured'' i m d0")
  have "\<exists>rs. u = Inr (r # rs)"
  proof (cases u0)
    case (Inl e)
    with assms show ?thesis by (simp add: capture_def a)
  next
    case (Inr sts)
    show ?thesis
    proof (cases sts)
      case Nil
      with Inr assms show ?thesis by (simp add: capture_def a)
    next
      case (Cons st sts')
      show ?thesis
      proof (cases u)
        case (Inl e)
        with Inr Cons assms show ?thesis by (simp add: capture_def a b split: if_splits)
      next
        case Inr2: (Inr xs)
        with Inr Cons assms show ?thesis
          by (cases xs) (simp_all add: capture_def a b split: if_splits)
      qed
    qed
  qed
  then obtain rs where "fst (update_status ''captured'' i m d0) = Inr (r # rs)" by (auto simp: b)
  then show ?thesis using update_status_scoped [of "''captured''" i m d0 "r # rs" r] by simp
qed

lemma outside_same: "charges d' = charges d \<Longrightarrow> outside i m d' = outside i m d"
  by (simp add: outside_def)

lemma outside_post_metadata: "outside i m (snd (post_metadata i m md d)) = outside i m d"
  using post_metadata_store [of i m md d]
proof
  assume "snd (post_metadata i m md d) = d"
  then show ?thesis by simp
next
  assume "snd (post_metadata i m md d) = snd (update_metadata (the md) i m d)"
  then show ?thesis by (simp add: outside_update_metadata)
qed

lemma outside_capture: "outside i m (snd (capture i m d)) = outside i m d"
  using capture_store [of i m d]
proof
  assume "snd (capture i m d) = snd (select_status i m d)"
  then show ?thesis by (simp add: outside_def)
next
  assume "snd (capture i m d) = snd (update_status ''captured'' i m (snd (select_status i m d)))"
  then have "outside i m (snd (capture i m d)) = outside i m (snd (select_status i m d))"
    by (simp add: outside_update_status)
  then show ?thesis by (simp add: outside_def)
qed

lemma connect_pair: "connect d = (fst (connect d), snd (connect d))"
  by simp

lemma select_charge_eq:
  "select_charge i m d =
     (if fst (connect d) then Inr (filter (\<lambda>r. id' r = i \<and> merchant_id r = m) (charges d))
      else Inl ConnectionError, snd (connect d))"
  by (cases d rule: connect_cases) (simp_all add: select_charge_def)

lemma select_charges_eq:
  "select_charges m l off d =
     (if fst (connect d) then page l off (filter (\<lambda>r. merchant_id r = m) (charges d))
      else Inl ConnectionError, snd (connect d))"
  by (cases d rule: connect_cases) (simp_all add: select_charges_def)

lemma count_charges_eq:
  "count_charges m d =
     (if fst (connect d) then Inr (length (filter (\<lambda>r. merchant_id r = m) (charges d)))
      else Inl ConnectionError, snd (connect d))"
  by (cases d rule: connect_cases) (simp_all add: count_charges_def)

lemma filter_like:
  "filter (\<lambda>r. merchant_id r = m \<and> description_like p r) rs
     = filter (description_like p) (filter (\<lambda>r. merchant_id r = m) rs)"
  by (induction rs) auto

lemma select_charges_like_eq:
  "select_charges_like m p l off d =
     (if fst (connect d)
      then page l off (filter (\<lambda>r. merchant_id r = m \<and> description_like p r) (charges d))
      else Inl ConnectionError, snd (connect d))"
  by (cases d rule: connect_cases) (simp_all add: select_charges_like_def)

lemma count_charges_like_eq:
  "count_charges_like m p d =
     (if fst (connect d)
      then Inr (length (filter (\<lambda>r. merchant_id r = m \<and> description_like p r) (charges d)))
      else Inl ConnectionError, snd (connect d))"
  by (cases d rule: connect_cases) (simp_all add: count_charges_like_def)

lemma select_customer_eq:
  "select_customer cs i m d =
     (if fst (connect d) then Inr (map fst (filter (\<lambda>c. fst c = i \<and> snd c = m) cs))
      else Inl ConnectionError, snd (connect d))"
  by (cases d rule: connect_cases) (simp_all add: select_customer_def)

lemma get_charge_depends:
  assumes "filter (\<lambda>r. id' r = i \<and> merchant_id r = m) (charges d)
             = filter (\<lambda>r. id' r = i \<and> merchant_id r = m) (charges d2)"
    and "outages d = outages d2"
  shows "fst (get_charge i m d) = fst (get_charge i m d2)"
  using assms connect_view [OF assms(2)]
  by (simp add: get_charge_def select_charge_eq split: list.splits)

lemma list_charges_depends:
  assumes v: "filter (\<lambda>r. merchant_id r = m) (charges d) = filter (\<lambda>r. merchant_id r = m) (charges d2)"
    and o: "outages d = outages d2"
  shows "fst (list_charges ql qo m d) = fst (list_charges ql qo m d2)"
proof -
  have c1: "fst (connect d) = fst (connect d2)"
    and o1: "outages (snd (connect d)) = outages (snd (connect d2))"
    using connect_view [OF o] by simp_all
  have c2: "fst (connect (snd (connect d))) = fst (connect (snd (connect d2)))"
    using connect_view [OF o1] by simp
  show ?thesis
    by (simp add: list_charges_def Let_def select_charges_eq count_charges_eq v c1 c2
        split: sum.splits)
qed

lemma customer_charges_depends:
  assumes v: "filter (\<lambda>r. merchant_id r = m) (charges d) = filter (\<lambda>r. merchant_id r = m) (charges d2)"
    and o: "outages d = outages d2"
  shows "fst (customer_charges cs i ql qo m d) = fst (customer_charges cs i ql qo m d2)"
proof -
  have c1: "fst (connect d) = fst (connect d2)"
    and o1: "outages (snd (connect d)) = outages (snd (connect d2))"
    using connect_view [OF o] by simp_all
  have c2: "fst (connect (snd (connect d))) = fst (connect (snd (connect d2)))"
    and o2: "outages (snd (connect (snd (connect d)))) = outages (snd (connect (snd (connect d2))))"
    using connect_view [OF o1] by simp_all
  have c3: "fst (connect (snd (connect (snd (connect d)))))
              = fst (connect (snd (connect (snd (connect d2)))))"
    using connect_view [OF o2] by simp
  have v': "filter (\<lambda>r. merchant_id r = m \<and> description_like p r) (charges d)
              = filter (\<lambda>r. merchant_id r = m \<and> description_like p r) (charges d2)" for p
    by (simp only: filter_like v)
  show ?thesis
    by (simp add: customer_charges_def Let_def select_customer_eq select_charges_like_eq
        count_charges_like_eq v' c1 c2 c3 split: sum.splits list.splits)
qed

lemma consistent_same_table:
  "consistent sys \<Longrightarrow> charges s' = charges (store sys) \<Longrightarrow> consistent (sys\<lparr>store := s'\<rparr>)"
  by (rule consistent_store) (simp_all add: table_step_same)

lemma consistent_step: "consistent sys \<Longrightarrow> consistent (step e sys)"
proof (cases e)
  case (Enqueued j)
  assume "consistent sys"
  with Enqueued show ?thesis by (simp add: consistent_def)
qed (simp_all add: consistent_invariant consistent_same_table)

lemma consistent_run: "consistent sys \<Longrightarrow> consistent (run es sys)"
  by (induction es arbitrary: sys) (simp_all add: consistent_step)

lemma started_consistent: "started sys \<Longrightarrow> consistent sys"
  by (simp add: started_def consistent_def)

lemma advance_store: "k < length (tasks sys) \<Longrightarrow> store (advance k sys) = snd (resume (tasks sys ! k) (store sys))"
  by (simp add: advance_def split: prod.splits)

lemma advance_settled: "task_data (tasks sys ! k) = None \<Longrightarrow> store (advance k sys) = store sys"
proof (cases "k < length (tasks sys)")
  case True
  assume "task_data (tasks sys ! k) = None"
  then have "resume (tasks sys ! k) (store sys) = (tasks sys ! k, store sys)"
    by (cases "tasks sys ! k") simp_all
  with True show ?thesis by (simp add: advance_store)
next
  case False
  then show ?thesis by (simp add: advance_def)
qed

lemma advance_appended:
  assumes k: "k < length (tasks sys)" and d: "task_data (tasks sys ! k) = Some jd"
    and r: "r \<in> set (drop (length (charges (store sys))) (charges (store (advance k sys))))"
  shows "merchant_id r = merchant_id jd \<and> varchar 255 (id' jd) = Some (id' r)"
proof -
  let ?s = "store sys"
  have ins: "merchant_id r = merchant_id jd \<and> varchar 255 (id' jd) = Some (id' r)"
    if "r \<in> set (drop (length (charges ?s)) (charges (snd (insert_charge (charge_row jd st) ?s))))"
    for st
  proof -
    obtain u s' where i: "insert_charge (charge_row jd st) ?s = (u, s')"
      by (cases "insert_charge (charge_row jd st) ?s")
    show ?thesis
    proof (cases u)
      case (Inl e)
      with i that show ?thesis by (simp add: insert_charge_Inl)
    next
      case (Inr x)
      with i obtain r' where r': "check_row ?s (charge_row jd st) = Inr r'"
        "charges s' = charges ?s @ [r']"
        using insert_charge_Inr by blast
      with i that have "r = r'" by simp
      then show ?thesis using check_row_stored [OF r'(1)] by (simp add: charge_row_def)
    qed
  qed
  show ?thesis
  proof (cases "tasks sys ! k")
    case (AwaitInsert d')
    with d r k ins [of "''pending''"] show ?thesis
      by (simp add: advance_store split: prod.splits sum.splits)
  next
    case (AwaitTimeout d')
    with r k show ?thesis by (simp add: advance_store)
  next
    case (AwaitUpdate d')
    have "length (charges (snd (update_status_by_id ''succeeded'' (id' d') ?s))) = length (charges ?s)"
      using update_status_by_id_charges [of "''succeeded''" "id' d'" ?s] by auto
    with AwaitUpdate r k show ?thesis
      by (simp add: advance_store split: prod.splits sum.splits)
  next
    case (AwaitFallback d')
    with d r k ins [of "''failed''"] show ?thesis
      by (simp add: advance_store split: prod.splits sum.splits)
  next
    case Fulfilled
    with d show ?thesis by simp
  next
    case (Rejected e)
    with d show ?thesis by simp
  qed
qed


text \<open>
  C4. Every read and every write of a charge row is scoped by the merchant, and by the
  charge id where the request names one.
  Reads: the retrieval of a charge, the two listings and the statements behind them leave
  the table as it is; every row they return has the merchant id of the request (and its
  id, for the retrieval); and their whole answer depends on nothing but the rows of that
  merchant (of that id and merchant), so no row of another merchant can be observed.
  Writes of the routes: the update of the metadata and the capture return only rows
  matching id and merchant id and leave the table outside these rows as it is; a tick and
  the creation of a charge write nothing.
  Writes of the settlement: in every state that the process reaches from its start by any
  sequence of events, resuming a call in flight leaves the rows that are not the job's
  (by id and merchant id) as they are, and every row it appends carries the merchant id
  and the id (as stored in \<^verbatim>\<open>VARCHAR(255)\<close>) of its job; a settled call writes nothing. The
  \<^verbatim>\<open>WHERE\<close> clause of worker.js line 20 names the id only: what keeps the update on the
  job's row is that the same call inserted that id before and that the id is the primary
  key (\<open>consistent\<close>, which \<open>consistent_run\<close> shows of every state reached).
\<close>

theorem C4_scope_of_reads_and_writes:
  "charges (snd (get_charge i m d)) = charges d
   \<and> (\<forall>c r. fst (get_charge i m d) = (c, Row r) \<longrightarrow> id' r = i \<and> merchant_id r = m)
   \<and> (filter (\<lambda>r. id' r = i \<and> merchant_id r = m) (charges d)
         = filter (\<lambda>r. id' r = i \<and> merchant_id r = m) (charges d2)
       \<and> outages d = outages d2
       \<longrightarrow> fst (get_charge i m d) = fst (get_charge i m d2)
           \<and> fst (select_status i m d) = fst (select_status i m d2))
   \<and> charges (snd (list_charges ql qo m d)) = charges d
   \<and> (\<forall>c hm rs. fst (list_charges ql qo m d) = (c, ListObject hm rs)
         \<longrightarrow> (\<forall>r \<in> set rs. merchant_id r = m))
   \<and> charges (snd (customer_charges cs i ql qo m d)) = charges d
   \<and> (\<forall>c hm rs. fst (customer_charges cs i ql qo m d) = (c, ListObject hm rs)
         \<longrightarrow> (\<forall>r \<in> set rs. merchant_id r = m))
   \<and> (filter (\<lambda>r. merchant_id r = m) (charges d) = filter (\<lambda>r. merchant_id r = m) (charges d2)
       \<and> outages d = outages d2
       \<longrightarrow> fst (list_charges ql qo m d) = fst (list_charges ql qo m d2)
           \<and> fst (customer_charges cs i ql qo m d) = fst (customer_charges cs i ql qo m d2))
   \<and> (\<forall>rs. fst (select_charge i m d) = Inr rs
         \<longrightarrow> (\<forall>r \<in> set rs. id' r = i \<and> merchant_id r = m))
   \<and> charges (snd (select_charge i m d)) = charges d
   \<and> charges (snd (select_status i m d)) = charges d
   \<and> (\<forall>rs. fst (update_metadata md i m d) = Inr rs
         \<longrightarrow> (\<forall>r \<in> set rs. id' r = i \<and> merchant_id r = m))
   \<and> outside i m (snd (update_metadata md i m d)) = outside i m d
   \<and> (\<forall>rs. fst (update_status st i m d) = Inr rs
         \<longrightarrow> (\<forall>r \<in> set rs. id' r = i \<and> merchant_id r = m))
   \<and> outside i m (snd (update_status st i m d)) = outside i m d
   \<and> (\<forall>c r. fst (post_metadata i m mdo d) = (c, Row r) \<longrightarrow> id' r = i \<and> merchant_id r = m)
   \<and> outside i m (snd (post_metadata i m mdo d)) = outside i m d
   \<and> (\<forall>c r. fst (capture i m d) = (c, Row r) \<longrightarrow> id' r = i \<and> merchant_id r = m)
   \<and> outside i m (snd (capture i m d)) = outside i m d
   \<and> store (tick sys) = store sys
   \<and> store (snd (post_charge uuid m b sys)) = store sys
   \<and> (started sys0 \<and> k < length (tasks (run evs sys0)) \<and> task_data (tasks (run evs sys0) ! k) = Some jd
       \<longrightarrow> take (length (charges (store (run evs sys0))))
             (outside (id' jd) (merchant_id jd) (store (advance k (run evs sys0))))
           = outside (id' jd) (merchant_id jd) (store (run evs sys0))
         \<and> (\<forall>r \<in> set (drop (length (charges (store (run evs sys0)))) (charges (store (advance k (run evs sys0))))).
               merchant_id r = merchant_id jd \<and> varchar 255 (id' jd) = Some (id' r)))
   \<and> (task_data (tasks (run evs sys0) ! k) = None \<longrightarrow> store (advance k (run evs sys0)) = store (run evs sys0))"
proof -
  have p1: "charges (snd (get_charge i m d)) = charges d"
    by (simp add: get_charge_store)
  have p2: "(\<forall>c r. fst (get_charge i m d) = (c, Row r) \<longrightarrow> id' r = i \<and> merchant_id r = m)"
    using get_charge_scoped by blast
  have p3: "(filter (\<lambda>r. id' r = i \<and> merchant_id r = m) (charges d)
         = filter (\<lambda>r. id' r = i \<and> merchant_id r = m) (charges d2)
       \<and> outages d = outages d2
       \<longrightarrow> fst (get_charge i m d) = fst (get_charge i m d2)
           \<and> fst (select_status i m d) = fst (select_status i m d2))"
    using get_charge_depends select_status_depends by blast
  have p4: "charges (snd (list_charges ql qo m d)) = charges d"
    by simp
  have p5: "(\<forall>c hm rs. fst (list_charges ql qo m d) = (c, ListObject hm rs)
         \<longrightarrow> (\<forall>r \<in> set rs. merchant_id r = m))"
    using list_charges_scoped by blast
  have p6: "charges (snd (customer_charges cs i ql qo m d)) = charges d"
    by simp
  have p7: "(\<forall>c hm rs. fst (customer_charges cs i ql qo m d) = (c, ListObject hm rs)
         \<longrightarrow> (\<forall>r \<in> set rs. merchant_id r = m))"
    using customer_charges_scoped by blast
  have p8: "(filter (\<lambda>r. merchant_id r = m) (charges d) = filter (\<lambda>r. merchant_id r = m) (charges d2)
       \<and> outages d = outages d2
       \<longrightarrow> fst (list_charges ql qo m d) = fst (list_charges ql qo m d2)
           \<and> fst (customer_charges cs i ql qo m d) = fst (customer_charges cs i ql qo m d2))"
    using list_charges_depends customer_charges_depends by blast
  have p9: "(\<forall>rs. fst (select_charge i m d) = Inr rs
         \<longrightarrow> (\<forall>r \<in> set rs. id' r = i \<and> merchant_id r = m))"
    using select_charge_scoped by blast
  have p10: "charges (snd (select_charge i m d)) = charges d"
    by simp
  have p11: "charges (snd (select_status i m d)) = charges d"
    by simp
  have p12: "(\<forall>rs. fst (update_metadata md i m d) = Inr rs
         \<longrightarrow> (\<forall>r \<in> set rs. id' r = i \<and> merchant_id r = m))"
    using update_metadata_scoped by blast
  have p13: "outside i m (snd (update_metadata md i m d)) = outside i m d"
    by (rule outside_update_metadata)
  have p14: "(\<forall>rs. fst (update_status st i m d) = Inr rs
         \<longrightarrow> (\<forall>r \<in> set rs. id' r = i \<and> merchant_id r = m))"
    using update_status_scoped by blast
  have p15: "outside i m (snd (update_status st i m d)) = outside i m d"
    by (rule outside_update_status)
  have p16: "(\<forall>c r. fst (post_metadata i m mdo d) = (c, Row r) \<longrightarrow> id' r = i \<and> merchant_id r = m)"
    using post_metadata_scoped by blast
  have p17: "outside i m (snd (post_metadata i m mdo d)) = outside i m d"
    by (rule outside_post_metadata)
  have p18: "(\<forall>c r. fst (capture i m d) = (c, Row r) \<longrightarrow> id' r = i \<and> merchant_id r = m)"
    using capture_scoped by blast
  have p19: "outside i m (snd (capture i m d)) = outside i m d"
    by (rule outside_capture)
  have p20: "store (tick sys) = store sys"
    by (simp add: tick_def split: prod.splits option.splits)
  have p21: "store (snd (post_charge uuid m b sys)) = store sys"
    by (simp add: post_charge_def Let_def split: option.splits)
  have p22: "(started sys0 \<and> k < length (tasks (run evs sys0)) \<and> task_data (tasks (run evs sys0) ! k) = Some jd
       \<longrightarrow> take (length (charges (store (run evs sys0))))
             (outside (id' jd) (merchant_id jd) (store (advance k (run evs sys0))))
           = outside (id' jd) (merchant_id jd) (store (run evs sys0))
         \<and> (\<forall>r \<in> set (drop (length (charges (store (run evs sys0)))) (charges (store (advance k (run evs sys0))))).
               merchant_id r = merchant_id jd \<and> varchar 255 (id' jd) = Some (id' r)))"
    using advance_scoped [of "run evs sys0" k jd] advance_appended [of k "run evs sys0" jd]
      consistent_run [OF started_consistent, of sys0 evs] by blast
  have p23: "(task_data (tasks (run evs sys0) ! k) = None \<longrightarrow> store (advance k (run evs sys0)) = store (run evs sys0))"
    using advance_settled by blast
  show ?thesis
    by (intro conjI) (rule p1, rule p2, rule p3, rule p4, rule p5, rule p6, rule p7, rule p8, rule p9, rule p10, rule p11, rule p12, rule p13, rule p14, rule p15, rule p16, rule p17, rule p18, rule p19, rule p20, rule p21, rule p22, rule p23)
qed


text \<open>A process started on a table with a charge of merchant \<^verbatim>\<open>m_2\<close>: the job of
  scenario 1, of merchant \<^verbatim>\<open>m_1\<close>, is enqueued, dispatched and resumed up to its update;
  the update changes its own row only, the listing of \<^verbatim>\<open>m_1\<close> shows that row only, and
  \<^verbatim>\<open>m_1\<close> cannot retrieve the charge of \<^verbatim>\<open>m_2\<close>.\<close>

theorem C4_scope_of_reads_and_writes_witness:
  "started two_merchants
   \<and> tasks (run [Enqueued job_ch_1, Tick, Advance 0, Advance 0] two_merchants) = [AwaitUpdate (data job_ch_1)]
   \<and> (0::nat) < length (tasks (run [Enqueued job_ch_1, Tick, Advance 0, Advance 0] two_merchants))
   \<and> task_data (tasks (run [Enqueued job_ch_1, Tick, Advance 0, Advance 0] two_merchants) ! 0) = Some (data job_ch_1)
   \<and> charges (store (run [Enqueued job_ch_1, Tick, Advance 0, Advance 0] two_merchants)) = [other_charge, charge_row (data job_ch_1) ''pending'']
   \<and> charges (store (advance 0 (run [Enqueued job_ch_1, Tick, Advance 0, Advance 0] two_merchants)))
       = [other_charge, charge_row (data job_ch_1) ''succeeded'']
   \<and> take 2 (outside ''ch_1'' ''m_1'' (store (advance 0 (run [Enqueued job_ch_1, Tick, Advance 0, Advance 0] two_merchants))))
       = [Some other_charge, None]
   \<and> outside ''ch_1'' ''m_1'' (store (run [Enqueued job_ch_1, Tick, Advance 0, Advance 0] two_merchants)) = [Some other_charge, None]
   \<and> fst (list_charges None None ''m_1'' (store (advance 0 (run [Enqueued job_ch_1, Tick, Advance 0, Advance 0] two_merchants))))
       = (200, ListObject False [charge_row (data job_ch_1) ''succeeded''])
   \<and> fst (get_charge ''ch_7'' ''m_1'' (store (advance 0 (run [Enqueued job_ch_1, Tick, Advance 0, Advance 0] two_merchants))))
       = (404, Error ''Charge not found or is still being processed.'')"
  using C4_scope_of_reads_and_writes [where ?sys0.0 = two_merchants
      and evs = "[Enqueued job_ch_1, Tick, Advance 0, Advance 0]" and k = 0 and jd = "data job_ch_1"
      and i = "''ch_7''" and m = "''m_1''" and ql = None and qo = None and cs = "[]"
      and d = "store (advance 0 (run [Enqueued job_ch_1, Tick, Advance 0, Advance 0] two_merchants))"
      and ?d2.0 = "store (advance 0 (run [Enqueued job_ch_1, Tick, Advance 0, Advance 0] two_merchants))"
      and md = JNull and mdo = None and st = "''captured''" and uuid = "''1''"
      and b = "\<lparr>body_amount = None, body_currency = None, body_source = None, body_description = None\<rparr>"
      and sys = two_merchants]
  by (simp add: two_merchants_def other_charge_def job_ch_1_def started_def advance_def tick_def
      dequeue_def enqueue_def processJob_def falsy_def insert_charge_def connect_def check_row_def
      varchar_def int4_def charge_row_def update_status_by_id_def outside_def list_charges_def
      page_param_def select_charges_def count_charges_def page_def get_charge_def
      select_charge_def Let_def)

text \<open>For the record: the update of worker.js line 20 applied to a table that holds the id
  of the job in a row of another merchant would rewrite that row. By the theorem above no
  state of the process has such a table when the update runs.\<close>

lemma update_status_by_id_alone:
  "merchant_id (data job_ch_1) = ''m_1''
   \<and> charges (snd (update_status_by_id ''succeeded'' (id' (data job_ch_1))
        \<lparr>merchants = [''m_1'', ''m_2''],
         charges = [\<lparr>id' = ''ch_1'', merchant_id = ''m_2'', amount = 900, currency = ''eur'',
                     status = ''pending'', description = None, metadata = None\<rparr>],
         outages = []\<rparr>))
     = [\<lparr>id' = ''ch_1'', merchant_id = ''m_2'', amount = 900, currency = ''eur'',
         status = ''succeeded'', description = None, metadata = None\<rparr>]"
  by (simp add: job_ch_1_def update_status_by_id_def connect_def)

end
